theory Spec2Isabelle
  imports Main "HOL-Library.Log_Nat"
begin

section \<open>Strings\<close>

text \<open>
  A JavaScript string is modelled as a \<^typ>\<open>string\<close>: a list of 8-bit characters, read as
  the code points U+0000 .. U+00FF (one UTF-16 code unit each, so \<open>length\<close> is the
  \<^verbatim>\<open>.length\<close> of the source).
\<close>

definition newline :: char where
  "newline = CHR 0x0A"

text \<open>
  White space and line terminators of ECMAScript below U+0100: TAB, LF, VT, FF, CR, SP and
  NBSP. \<^verbatim>\<open>String.prototype.trim\<close> strips them from both ends.
\<close>

definition is_space :: "char \<Rightarrow> bool" where
  "is_space c = (c \<in> set [CHR 0x09, CHR 0x0A, CHR 0x0B, CHR 0x0C, CHR 0x0D, CHR 0x20, CHR 0xA0])"

definition trim :: "string \<Rightarrow> string" where
  "trim s = rev (dropWhile is_space (rev (dropWhile is_space s)))"

text \<open>
  \<^verbatim>\<open>text.split(/\n\n+/)\<close>: the separator is a maximal run of two or more line feeds
  (the quantifier is greedy); a single line feed stays inside its piece. As no separator
  matches the empty string, the result always has one piece more than there are
  separators, and \<^verbatim>\<open>"".split(/\n\n+/)\<close> is \<^verbatim>\<open>[""]\<close>. The first argument is the piece
  read so far.
\<close>

function split_paragraphs_from :: "string \<Rightarrow> string \<Rightarrow> string list" where
  "split_paragraphs_from cur [] = [cur]"
| "split_paragraphs_from cur (c # cs) =
     (if c = newline \<and> cs \<noteq> [] \<and> hd cs = newline
      then cur # split_paragraphs_from [] (dropWhile (\<lambda>d. d = newline) cs)
      else split_paragraphs_from (cur @ [c]) cs)"
  by pat_completeness auto
termination
  by (relation "measure (\<lambda>(cur, s). length s)")
     (auto simp: less_Suc_eq_le length_dropWhile_le)

definition split_paragraphs :: "string \<Rightarrow> string list" where
  "split_paragraphs s = split_paragraphs_from [] s"

text \<open>
  \<^verbatim>\<open>s.split(' ')\<close>: the pieces between single space characters. Two adjacent spaces give
  an empty piece, and line feeds do not separate.
\<close>

fun split_space_from :: "string \<Rightarrow> string \<Rightarrow> string list" where
  "split_space_from cur [] = [cur]"
| "split_space_from cur (c # cs) =
     (if c = CHR '' '' then cur # split_space_from [] cs
      else split_space_from (cur @ [c]) cs)"

definition split_space :: "string \<Rightarrow> string list" where
  "split_space s = split_space_from [] s"

text \<open>\<^verbatim>\<open>pieces.join(sep)\<close>.\<close>

fun join :: "string \<Rightarrow> string list \<Rightarrow> string" where
  "join sep [] = []"
| "join sep [p] = p"
| "join sep (p # q # ps) = p @ sep @ join sep (q # ps)"

text \<open>
  \<^verbatim>\<open>xs.slice(start)\<close> for an integer \<open>start\<close>: a negative start counts from the end and is
  clamped at the first element, a start beyond the end gives the empty array. In
  particular \<^verbatim>\<open>xs.slice(-0)\<close> is \<^verbatim>\<open>xs.slice(0)\<close>, the whole array.
\<close>

definition slice_from :: "int \<Rightarrow> 'a list \<Rightarrow> 'a list" where
  "slice_from start xs =
     (let len = int (length xs);
          k = (if start < 0 then max (len + start) 0 else min start len)
      in drop (nat k) xs)"

section \<open>The chunker\<close>

record chunk =
  chunk_id :: nat
  chunk_text :: string

text \<open>
  The state of the loop of \<^verbatim>\<open>chunkText\<close>: the chunks pushed so far, the running buffer
  \<^verbatim>\<open>currentChunk\<close> and the next identifier \<^verbatim>\<open>chunkIndex\<close>.
\<close>

record chunker =
  chunks_so_far :: "chunk list"
  currentChunk :: string
  chunkIndex :: nat

text \<open>The test of the loop body: the paragraph does not fit and the buffer is not empty.\<close>

definition closes :: "int \<Rightarrow> chunker \<Rightarrow> string \<Rightarrow> bool" where
  "closes chunkSize st para =
     (chunkSize < int (length (currentChunk st @ para)) \<and> 0 < length (currentChunk st))"

text \<open>
  The overlap kept from a closed buffer:
  \<^verbatim>\<open>currentChunk.split(' ').slice(-Math.floor(overlap / 5)).join(' ')\<close>. On integers
  \<open>div\<close> rounds towards minus infinity, as \<^verbatim>\<open>Math.floor\<close> does.
\<close>

definition overlapWords :: "int \<Rightarrow> string \<Rightarrow> string list" where
  "overlapWords overlap buffer = slice_from (- (overlap div 5)) (split_space buffer)"

definition chunk_step :: "int \<Rightarrow> int \<Rightarrow> chunker \<Rightarrow> string \<Rightarrow> chunker" where
  "chunk_step chunkSize overlap st para =
     (if closes chunkSize st para
      then \<lparr>chunks_so_far = chunks_so_far st @
                 [\<lparr>chunk_id = chunkIndex st, chunk_text = trim (currentChunk st)\<rparr>],
            currentChunk = join '' '' (overlapWords overlap (currentChunk st)) @ '' '' @ para,
            chunkIndex = chunkIndex st + 1\<rparr>
      else st\<lparr>currentChunk :=
                 currentChunk st @ (if currentChunk st \<noteq> [] then [newline, newline] else []) @ para\<rparr>)"

definition chunkText :: "string \<Rightarrow> int \<Rightarrow> int \<Rightarrow> chunk list" where
  "chunkText text chunkSize overlap =
     (let st = foldl (chunk_step chunkSize overlap)
                 \<lparr>chunks_so_far = [], currentChunk = [], chunkIndex = 0\<rparr>
                 (split_paragraphs text)
      in if trim (currentChunk st) \<noteq> []
         then chunks_so_far st @
                [\<lparr>chunk_id = chunkIndex st, chunk_text = trim (currentChunk st)\<rparr>]
         else chunks_so_far st)"

section \<open>Tokens and the vocabulary\<close>

text \<open>
  \<^verbatim>\<open>toLowerCase\<close> on the code points below U+0100: the letters A .. Z and the Latin-1
  capitals U+00C0 .. U+00DE (without the multiplication sign U+00D7) move up by 32.
\<close>

definition toLowerCase_char :: "char \<Rightarrow> char" where
  "toLowerCase_char c =
     (let n = (of_char c :: nat)
      in if (65 \<le> n \<and> n \<le> 90) \<or> (192 \<le> n \<and> n \<le> 222 \<and> n \<noteq> 215)
         then char_of (n + 32) else c)"

definition toLowerCase :: "string \<Rightarrow> string" where
  "toLowerCase s = map toLowerCase_char s"

text \<open>The class \<^verbatim>\<open>\w\<close> of a regular expression without the unicode flag.\<close>

definition is_word :: "char \<Rightarrow> bool" where
  "is_word c =
     (c \<in> set ''abcdefghijklmnopqrstuvwxyzABCDEFGHIJKLMNOPQRSTUVWXYZ0123456789_'')"

text \<open>
  The assertion \<^verbatim>\<open>\b\<close> at offset \<open>n\<close> of \<open>s\<close>: exactly one of the characters before
  and after the offset is a word character. \<open>prev\<close> tells whether the character before
  offset 0 is one (the matcher is run on a suffix of the subject).
\<close>

definition word_boundary :: "bool \<Rightarrow> string \<Rightarrow> nat \<Rightarrow> bool" where
  "word_boundary prev s n =
     ((if n = 0 then prev else n \<le> length s \<and> is_word (s ! (n - 1)))
      \<noteq> (n < length s \<and> is_word (s ! n)))"

text \<open>
  One attempt of \<^verbatim>\<open>/\b\w+\b/\<close> at the start of \<open>s\<close>: the boundary, then the greedy
  \<^verbatim>\<open>\w+\<close>, which tries the longest run of word characters first and gives characters
  back one at a time, each time testing the closing boundary. The result is the match
  and the rest of the subject.
\<close>

definition match_word_at :: "bool \<Rightarrow> string \<Rightarrow> (string \<times> string) option" where
  "match_word_at prev s =
     (if word_boundary prev s 0
      then map_option (\<lambda>n. (take n s, drop n s))
             (find (word_boundary prev s) (rev [1..<Suc (length (takeWhile is_word s))]))
      else None)"

text \<open>
  \<^verbatim>\<open>s.match(/\b\w+\b/g) || []\<close>: all matches from left to right. After a match the scan
  goes on behind it; where the expression does not match, it moves one character on.
\<close>

function match_words_from :: "bool \<Rightarrow> string \<Rightarrow> string list" where
  "match_words_from prev s =
     (case match_word_at prev s of
        Some (m, rest) \<Rightarrow> m # match_words_from (is_word (last m)) rest
      | None \<Rightarrow> (case s of [] \<Rightarrow> [] | c # cs \<Rightarrow> match_words_from (is_word c) cs))"
  by pat_completeness auto
termination
proof (relation "measure (\<lambda>(prev, s). length s)")
  fix prev :: bool and s :: string and x2 :: "string \<times> string" and m rest :: string
  assume a: "match_word_at prev s = Some x2" "(m, rest) = x2"
  then obtain n where n: "rest = drop n s"
    and f: "find (word_boundary prev s) (rev [1..<Suc (length (takeWhile is_word s))]) = Some n"
    by (auto simp: match_word_at_def split: if_splits)
  from f obtain i where "i < length (rev [1..<Suc (length (takeWhile is_word s))])"
    and "n = rev [1..<Suc (length (takeWhile is_word s))] ! i"
    unfolding find_Some_iff by blast
  then have "n \<in> set (rev [1..<Suc (length (takeWhile is_word s))])"
    by (metis nth_mem)
  then have "0 < n" "n \<le> length (takeWhile is_word s)"
    by (simp_all del: upt_Suc)
  moreover have "length (takeWhile is_word s) \<le> length s" by (rule length_takeWhile_le)
  ultimately show "((is_word (last m), rest), (prev, s)) \<in> measure (\<lambda>(prev, s). length s)"
    using n by auto
qed auto

definition words_of :: "string \<Rightarrow> string list" where
  "words_of text = match_words_from False (toLowerCase text)"

text \<open>
  \<^verbatim>\<open>[...new Set(xs)]\<close>: a Set keeps its elements in the order of their first insertion.
\<close>

definition set_add :: "'a list \<Rightarrow> 'a \<Rightarrow> 'a list" where
  "set_add s x = (if x \<in> set s then s else s @ [x])"

definition new_Set :: "'a list \<Rightarrow> 'a list" where
  "new_Set xs = foldl set_add [] xs"

text \<open>
  The vocabulary of the upload handler:
  \<^verbatim>\<open>[...new Set(chunks.flatMap(chunk => chunk.text.toLowerCase().match(/\b\w+\b/g) || []))].slice(0, 500)\<close>.
\<close>

definition allWords :: "chunk list \<Rightarrow> string list" where
  "allWords chunks = concat (map (\<lambda>chunk. words_of (chunk_text chunk)) chunks)"

definition vocabulary_of :: "chunk list \<Rightarrow> string list" where
  "vocabulary_of chunks = take 500 (new_Set (allWords chunks))"

section \<open>Numbers\<close>

text \<open>
  A JavaScript number is an IEEE 754 double. Its finite values are rational numbers, so a
  number is modelled as \<open>Num x\<close> with \<open>x\<close> rational, or as one of \<open>NaN\<close>, \<open>PInf\<close>
  (\<^verbatim>\<open>Infinity\<close>) and \<open>NInf\<close> (\<^verbatim>\<open>-Infinity\<close>). Every arithmetic operation computes the
  exact result and rounds it to the nearest double, ties to the even significand
  (\<open>to_number\<close>). The sign of a zero is not modelled: \<open>Num 0\<close> stands for both zeros.
\<close>

datatype jsnum = Num rat | NaN | PInf | NInf

definition pow2 :: "int \<Rightarrow> rat" where
  "pow2 e = 2 powi e"

text \<open>The binary exponent of \<open>x \<noteq> 0\<close>: the \<open>e\<close> with \<open>2\<^sup>e \<le> |x| < 2\<^sup>e\<^sup>+\<^sup>1\<close>.\<close>

definition exponent :: "rat \<Rightarrow> int" where
  "exponent x =
     (let (p, q) = quotient_of \<bar>x\<bar>; e = bitlen p - bitlen q
      in if pow2 e \<le> \<bar>x\<bar> then e else e - 1)"

text \<open>
  The distance between the doubles around \<open>x\<close>: 53 significant bits, and the exponent of
  the subnormal numbers at the lower end.
\<close>

definition ulp :: "rat \<Rightarrow> rat" where
  "ulp x = pow2 (max (exponent x - 52) (- 1074))"

definition round_half_even :: "rat \<Rightarrow> int" where
  "round_half_even q =
     (let f = \<lfloor>q\<rfloor>; r = q - of_int f
      in if r < 1 / 2 then f else if 1 / 2 < r then f + 1 else if even f then f else f + 1)"

definition nearest_double :: "rat \<Rightarrow> rat" where
  "nearest_double x = (if x = 0 then 0 else of_int (round_half_even (x / ulp x)) * ulp x)"

text \<open>The number that an operation with the exact result \<open>x\<close> returns.\<close>

definition to_number :: "rat \<Rightarrow> jsnum" where
  "to_number x =
     (let y = nearest_double x
      in if 2 ^ 1024 \<le> y then PInf else if y \<le> - (2 ^ 1024) then NInf else Num y)"

text \<open>The sign of a number that is not \<open>NaN\<close>.\<close>

definition sign_of :: "jsnum \<Rightarrow> int" where
  "sign_of a =
     (case a of
        Num x \<Rightarrow> (if x < 0 then - 1 else if x = 0 then 0 else 1)
      | PInf \<Rightarrow> 1 | NInf \<Rightarrow> - 1 | NaN \<Rightarrow> 0)"

definition signed_infinity :: "int \<Rightarrow> jsnum" where
  "signed_infinity s = (if s = 0 then NaN else if 0 < s then PInf else NInf)"

definition js_add :: "jsnum \<Rightarrow> jsnum \<Rightarrow> jsnum" where
  "js_add a b =
     (case (a, b) of
        (NaN, _) \<Rightarrow> NaN
      | (_, NaN) \<Rightarrow> NaN
      | (Num x, Num y) \<Rightarrow> to_number (x + y)
      | (Num x, b) \<Rightarrow> b
      | (a, Num y) \<Rightarrow> a
      | (a, b) \<Rightarrow> (if a = b then a else NaN))"

definition js_neg :: "jsnum \<Rightarrow> jsnum" where
  "js_neg a = (case a of Num x \<Rightarrow> Num (- x) | NaN \<Rightarrow> NaN | PInf \<Rightarrow> NInf | NInf \<Rightarrow> PInf)"

definition js_sub :: "jsnum \<Rightarrow> jsnum \<Rightarrow> jsnum" where
  "js_sub a b = js_add a (js_neg b)"

definition js_mul :: "jsnum \<Rightarrow> jsnum \<Rightarrow> jsnum" where
  "js_mul a b =
     (case (a, b) of
        (NaN, _) \<Rightarrow> NaN
      | (_, NaN) \<Rightarrow> NaN
      | (Num x, Num y) \<Rightarrow> to_number (x * y)
      | (a, b) \<Rightarrow> signed_infinity (sign_of a * sign_of b))"

text \<open>
  Division. A zero divisor is taken as \<^verbatim>\<open>+0\<close>; in \<^verbatim>\<open>cosineSimilarity\<close> the divisor is a
  product of two square roots, which is never \<^verbatim>\<open>-0\<close>.
\<close>

definition js_div :: "jsnum \<Rightarrow> jsnum \<Rightarrow> jsnum" where
  "js_div a b =
     (case (a, b) of
        (NaN, _) \<Rightarrow> NaN
      | (_, NaN) \<Rightarrow> NaN
      | (Num x, Num y) \<Rightarrow> (if y = 0 then signed_infinity (sign_of a) else to_number (x / y))
      | (Num x, b) \<Rightarrow> Num 0
      | (a, Num y) \<Rightarrow> signed_infinity (sign_of a * (if y < 0 then - 1 else 1))
      | (a, b) \<Rightarrow> NaN)"

text \<open>
  The integer square root by bisection: \<open>isqrt_between n lo hi\<close> is called with
  \<open>lo\<^sup>2 \<le> n < hi\<^sup>2\<close> and returns the \<open>r\<close> with \<open>r\<^sup>2 \<le> n < (r + 1)\<^sup>2\<close>.
\<close>

function isqrt_between :: "nat \<Rightarrow> nat \<Rightarrow> nat \<Rightarrow> nat" where
  "isqrt_between n lo hi =
     (if hi \<le> lo + 1 then lo
      else let mid = (lo + hi) div 2
           in if mid * mid \<le> n then isqrt_between n mid hi else isqrt_between n lo mid)"
  by pat_completeness auto
termination
  by (relation "measure (\<lambda>(n, lo, hi). hi - lo)") auto

definition isqrt :: "nat \<Rightarrow> nat" where
  "isqrt n = isqrt_between n 0 (n + 1)"

text \<open>
  \<^verbatim>\<open>Math.sqrt\<close> of a positive double \<open>x\<close>, correctly rounded. \<open>x\<close> is scaled by a power
  \<open>4\<^sup>k\<close> to an integer \<open>n\<close> of at least 110 bits, so that \<open>r = isqrt n\<close> has at least 55
  bits. Either \<open>r\<^sup>2 = n\<close> and the root is \<open>r / 2\<^sup>k\<close>, or the root lies strictly between
  \<open>r / 2\<^sup>k\<close> and \<open>(r + 1) / 2\<^sup>k\<close>; as no double and no midpoint of two doubles lies
  strictly between these two, the root rounds as \<open>(r + 1/2) / 2\<^sup>k\<close> does.
\<close>

definition sqrt_double :: "rat \<Rightarrow> rat" where
  "sqrt_double x =
     (let (p, q) = quotient_of x;
          k = nat (max (max 0 ((111 - exponent x) div 2)) (bitlen q div 2));
          n = nat \<lfloor>x * 4 ^ k\<rfloor>;
          r = isqrt n
      in nearest_double ((if r * r = n then of_nat r else of_nat r + 1 / 2) / 2 ^ k))"

definition js_sqrt :: "jsnum \<Rightarrow> jsnum" where
  "js_sqrt a =
     (case a of
        Num x \<Rightarrow> (if x < 0 then NaN else if x = 0 then Num 0 else Num (sqrt_double x))
      | NaN \<Rightarrow> NaN
      | PInf \<Rightarrow> PInf
      | NInf \<Rightarrow> NaN)"

section \<open>The vectorizer\<close>

text \<open>
  \<^verbatim>\<open>wordCounts[word] || 0\<close>. The object \<^verbatim>\<open>wordCounts = {}\<close> inherits the properties of
  \<^verbatim>\<open>Object.prototype\<close>. For a word that names one of them the lookup does not give a
  count: it gives the inherited function or object, or the string that
  \<^verbatim>\<open>(wordCounts[word] || 0) + 1\<close> has stored from it. The only use of a vector entry is a
  multiplication in \<^verbatim>\<open>cosineSimilarity\<close>, which converts such a value to \<^verbatim>\<open>NaN\<close>, so the
  entry is modelled as \<open>NaN\<close>. For every other word the entry is the number of its
  occurrences.
\<close>

definition prototype_keys :: "string list" where
  "prototype_keys =
     [''constructor'', ''__proto__'', ''hasOwnProperty'', ''isPrototypeOf'',
      ''propertyIsEnumerable'', ''toLocaleString'', ''toString'', ''valueOf'',
      ''__defineGetter__'', ''__defineSetter__'', ''__lookupGetter__'', ''__lookupSetter__'']"

definition wordCount :: "string list \<Rightarrow> string \<Rightarrow> jsnum" where
  "wordCount words word =
     (if word \<in> set prototype_keys then NaN else Num (of_nat (count_list words word)))"

text \<open>
  \<^verbatim>\<open>simpleEmbedding(text, vocabulary = null)\<close>; \<open>None\<close> is the missing argument. An array,
  also the empty one, is truthy, so a given vocabulary is always used.
\<close>

definition simpleEmbedding :: "string \<Rightarrow> string list option \<Rightarrow> jsnum list \<times> string list" where
  "simpleEmbedding text vocabulary_arg =
     (let words = words_of text;
          voc = (case vocabulary_arg of None \<Rightarrow> new_Set words | Some v \<Rightarrow> v)
      in (map (wordCount words) voc, voc))"

text \<open>
  A vector of occurrence counts, as \<open>simpleEmbedding\<close> builds it over a vocabulary without
  a name of \<^verbatim>\<open>Object.prototype\<close>.
\<close>

definition count_vector :: "nat list \<Rightarrow> jsnum list" where
  "count_vector counts = map (\<lambda>c. Num (of_nat c)) counts"

section \<open>The similarity ranker\<close>

text \<open>\<^verbatim>\<open>b[i]\<close> as a factor: beyond the end it is \<^verbatim>\<open>undefined\<close>, which multiplies to \<^verbatim>\<open>NaN\<close>.\<close>

definition element :: "jsnum list \<Rightarrow> nat \<Rightarrow> jsnum" where
  "element b i = (if i < length b then b ! i else NaN)"

definition dotProduct :: "jsnum list \<Rightarrow> jsnum list \<Rightarrow> jsnum" where
  "dotProduct a b =
     foldl (\<lambda>sum (i, val). js_add sum (js_mul val (element b i))) (Num 0) (enumerate 0 a)"

definition magnitude :: "jsnum list \<Rightarrow> jsnum" where
  "magnitude a = js_sqrt (foldl (\<lambda>sum val. js_add sum (js_mul val val)) (Num 0) a)"

definition cosineSimilarity :: "jsnum list \<Rightarrow> jsnum list \<Rightarrow> jsnum" where
  "cosineSimilarity a b = js_div (dotProduct a b) (js_mul (magnitude a) (magnitude b))"

record embedded_chunk = chunk +
  embedding :: "jsnum list"

record scored_chunk = embedded_chunk +
  similarity :: jsnum

definition with_similarity :: "jsnum list \<Rightarrow> embedded_chunk \<Rightarrow> scored_chunk" where
  "with_similarity questionVector c =
     \<lparr>chunk_id = chunk_id c, chunk_text = chunk_text c, embedding = embedding c,
      similarity = cosineSimilarity questionVector (embedding c)\<rparr>"

text \<open>The comparator \<^verbatim>\<open>(a, b) => b.similarity - a.similarity\<close>.\<close>

definition by_similarity :: "scored_chunk \<Rightarrow> scored_chunk \<Rightarrow> jsnum" where
  "by_similarity a b = js_sub (similarity b) (similarity a)"

text \<open>
  \<^verbatim>\<open>Array.prototype.sort(comparefn)\<close>. The sort works on \<open>SortCompare\<close>, which is the
  comparator with the result \<^verbatim>\<open>NaN\<close> read as \<^verbatim>\<open>+0\<close>; \<open>compare_sign\<close> is the sign of its
  result: negative when the first argument sorts before the second, 0 when the two tie,
  positive when it sorts after.
\<close>

definition SortCompare :: "('a \<Rightarrow> 'a \<Rightarrow> jsnum) \<Rightarrow> 'a \<Rightarrow> 'a \<Rightarrow> jsnum" where
  "SortCompare comparefn x y = (case comparefn x y of NaN \<Rightarrow> Num 0 | v \<Rightarrow> v)"

definition compare_sign :: "('a \<Rightarrow> 'a \<Rightarrow> jsnum) \<Rightarrow> 'a \<Rightarrow> 'a \<Rightarrow> int" where
  "compare_sign comparefn x y = sign_of (SortCompare comparefn x y)"

text \<open>
  ECMAScript fixes the result of the sort only for a comparator that is consistent on the
  elements of the array: every element ties with itself, tying is symmetric and
  transitive, and so are "sorts before" and "sorts after".
\<close>

definition consistent_at :: "('a \<Rightarrow> 'a \<Rightarrow> jsnum) \<Rightarrow> 'a \<Rightarrow> 'a \<Rightarrow> 'a \<Rightarrow> bool" where
  "consistent_at comparefn a b c =
     (compare_sign comparefn a a = 0
      \<and> (if compare_sign comparefn a b = 0 then compare_sign comparefn b a = 0 else True)
      \<and> (if compare_sign comparefn a b = 0 \<and> compare_sign comparefn b c = 0
          then compare_sign comparefn a c = 0 else True)
      \<and> (if compare_sign comparefn a b < 0 \<and> compare_sign comparefn b c < 0
          then compare_sign comparefn a c < 0 else True)
      \<and> (if 0 < compare_sign comparefn a b \<and> 0 < compare_sign comparefn b c
          then 0 < compare_sign comparefn a c else True))"

definition consistent :: "('a \<Rightarrow> 'a \<Rightarrow> jsnum) \<Rightarrow> 'a list \<Rightarrow> bool" where
  "consistent comparefn xs =
     list_all (\<lambda>a. list_all (\<lambda>b. list_all (\<lambda>c. consistent_at comparefn a b c) xs) xs) xs"

text \<open>
  With a consistent comparator every conforming sort returns the same array, the stable
  sorted one: an element stays behind the elements before it unless it sorts before
  them. It is computed here by insertion from the right.
\<close>

definition sorts_after :: "('a \<Rightarrow> 'a \<Rightarrow> jsnum) \<Rightarrow> 'a \<Rightarrow> 'a \<Rightarrow> bool" where
  "sorts_after comparefn x y = (0 < compare_sign comparefn x y)"

fun insert_sorted :: "('a \<Rightarrow> 'a \<Rightarrow> jsnum) \<Rightarrow> 'a \<Rightarrow> 'a list \<Rightarrow> 'a list" where
  "insert_sorted comparefn x [] = [x]"
| "insert_sorted comparefn x (y # ys) =
     (if sorts_after comparefn x y then y # insert_sorted comparefn x ys else x # y # ys)"

definition insertion_sort :: "('a \<Rightarrow> 'a \<Rightarrow> jsnum) \<Rightarrow> 'a list \<Rightarrow> 'a list" where
  "insertion_sort comparefn xs = foldr (insert_sorted comparefn) xs []"

text \<open>
  With a comparator that is not consistent on the elements, which is the case when a
  score \<^verbatim>\<open>NaN\<close> meets two different finite scores, ECMAScript leaves the order to the
  implementation: it depends on the calls of \<open>SortCompare\<close> that the engine chooses to
  make. The engine's sort is therefore a parameter, \<open>engine\<close>, which is asked only in
  that case; nothing is assumed about it.
\<close>

definition js_sort ::
  "(('a \<Rightarrow> 'a \<Rightarrow> jsnum) \<Rightarrow> 'a list \<Rightarrow> 'a list) \<Rightarrow> ('a \<Rightarrow> 'a \<Rightarrow> jsnum) \<Rightarrow> 'a list \<Rightarrow> 'a list" where
  "js_sort engine comparefn xs =
     (if consistent comparefn xs then insertion_sort comparefn xs
      else engine (SortCompare comparefn) xs)"

text \<open>
  The ranking of the ask handler: score every chunk, sort by the comparator, keep the
  first three.
\<close>

type_synonym sort_engine =
  "(scored_chunk \<Rightarrow> scored_chunk \<Rightarrow> jsnum) \<Rightarrow> scored_chunk list \<Rightarrow> scored_chunk list"

definition topChunks :: "sort_engine \<Rightarrow> jsnum list \<Rightarrow> embedded_chunk list \<Rightarrow> scored_chunk list" where
  "topChunks engine questionVector cs =
     take 3 (js_sort engine by_similarity (map (with_similarity questionVector) cs))"

section \<open>The document store and the two handlers\<close>

record document =
  chunks :: "embedded_chunk list"
  vocabulary :: "string list"
  pages :: nat
  totalChunks :: nat

type_synonym documentStore = "string \<rightharpoonup> document"

text \<open>\<^verbatim>\<open>n.toString()\<close> of a non-negative integer: its decimal digits.\<close>

fun show_nat :: "nat \<Rightarrow> string" where
  "show_nat n =
     (if n < 10 then [char_of (48 + n)] else show_nat (n div 10) @ [char_of (48 + n mod 10)])"

text \<open>
  The record that the upload handler builds from the extracted text: the chunks of
  \<^verbatim>\<open>chunkText(text, 800, 150)\<close>, the vocabulary of all chunks, and every chunk with its
  embedding over that vocabulary.
\<close>

definition with_embedding :: "string list \<Rightarrow> chunk \<Rightarrow> embedded_chunk" where
  "with_embedding voc c =
     \<lparr>chunk_id = chunk_id c, chunk_text = chunk_text c,
      embedding = fst (simpleEmbedding (chunk_text c) (Some voc))\<rparr>"

definition build_document :: "string \<Rightarrow> nat \<Rightarrow> document" where
  "build_document text numpages =
     (let cs = chunkText text 800 150;
          voc = vocabulary_of cs
      in \<lparr>chunks = map (with_embedding voc) cs, vocabulary = voc,
          pages = numpages, totalChunks = length cs\<rparr>)"

datatype upload_response =
  Uploaded string nat nat string
  | UploadFailed nat string

text \<open>
  \<^verbatim>\<open>POST /upload\<close>. \<open>pdfParse\<close> is the text extraction: it gives the text and the number
  of pages, or fails with a message. \<open>now\<close> is the reading of \<^verbatim>\<open>Date.now()\<close>. The result
  is the store after the request and the response.
\<close>

definition upload ::
  "('f \<Rightarrow> string + string \<times> nat) \<Rightarrow> nat \<Rightarrow> documentStore \<Rightarrow> 'f option
     \<Rightarrow> documentStore \<times> upload_response" where
  "upload pdfParse now store file =
     (case file of
        None \<Rightarrow> (store, UploadFailed 400 ''No file uploaded'')
      | Some f \<Rightarrow>
          (case pdfParse f of
             Inl message \<Rightarrow> (store, UploadFailed 500 (''Failed to process PDF: '' @ message))
           | Inr (text, numpages) \<Rightarrow>
               (let doc = build_document text numpages;
                    docId = show_nat now
                in (store(docId \<mapsto> doc),
                    Uploaded docId numpages (totalChunks doc)
                      (''Processed '' @ show_nat numpages @ '' pages into '' @
                       show_nat (totalChunks doc) @ '' searchable chunks'')))))"

definition prompt_head :: string where
  "prompt_head =
    ''You are a helpful, friendly assistant answering questions about a document. '' @
      [newline] @ [newline] @ ''Here are the most relevant sections from the document:'' @
      [newline] @ [newline] @ ''<document>'' @ [newline]"

definition prompt_middle :: string where
  "prompt_middle =
    [newline] @ ''</document>'' @ [newline] @ [newline] @ ''Please answer the user'' @
      [CHR 0x27] @ ''s question in a natural, conversational way:'' @ [newline] @
      ''- Explain the information clearly and concisely'' @ [newline] @
      ''- Use bullet points only when listing multiple items makes it clearer'' @ [newline] @
      ''- Organize the information logically'' @ [newline] @
      ''- If there are specific requirements or rules, present them in an easy-to-understand '' @
      ''format'' @ [newline] @
      ''- Be helpful and direct - avoid unnecessary preambles like '' @ [CHR 0x22] @
      ''Based on the document...'' @ [CHR 0x22] @ [newline] @ ''- If the answer isn'' @
      [CHR 0x27] @
      ''t in these sections, politely say so and suggest what information might '' @
      ''be needed'' @ [newline] @ [newline] @ ''Question: ''"

definition prompt_tail :: string where
  "prompt_tail =
    [newline] @ [newline] @ ''Answer:''"

definition prompt_for :: "string \<Rightarrow> string \<Rightarrow> string" where
  "prompt_for context question = prompt_head @ context @ prompt_middle @ question @ prompt_tail"

datatype ask_response =
  Answered string nat nat
  | AskFailed nat string

definition MissingInput :: ask_response where
  "MissingInput = AskFailed 400 ''Missing question or document ID''"

definition DocumentNotFound :: ask_response where
  "DocumentNotFound = AskFailed 404 ''Document not found. Please re-upload.''"

text \<open>The test \<^verbatim>\<open>!field\<close> on a field of the request body: missing, or the empty string.\<close>

definition falsy :: "string option \<Rightarrow> bool" where
  "falsy field = (case field of None \<Rightarrow> True | Some v \<Rightarrow> v = [])"

text \<open>
  \<^verbatim>\<open>POST /ask\<close>. The fields of the request body are strings or missing. \<open>completion\<close> is the
  completion capability: for a prompt it gives the answer text, or fails with a message
  (the call is rejected, or the reply has no text). \<open>engine\<close> is the sort of the
  JavaScript engine. The result is the response and the list of the prompts that were
  sent to the capability during the request.
\<close>

definition ask ::
  "(string \<Rightarrow> string + string) \<Rightarrow> sort_engine \<Rightarrow> documentStore \<Rightarrow> string option
     \<Rightarrow> string option \<Rightarrow> ask_response \<times> string list" where
  "ask completion engine store question docId =
     (if falsy question \<or> falsy docId then (MissingInput, [])
      else case store (the docId) of
        None \<Rightarrow> (DocumentNotFound, [])
      | Some doc \<Rightarrow>
          (let questionVector = fst (simpleEmbedding (the question) (Some (vocabulary doc)));
               top = topChunks engine questionVector (chunks doc);
               context = join ([newline, newline] @ ''---'' @ [newline, newline])
                           (map chunk_text top);
               prompt = prompt_for context (the question)
           in (case completion prompt of
                 Inl message \<Rightarrow>
                   AskFailed 500 (if message = [] then ''Failed to get answer from AI'' else message)
               | Inr answer \<Rightarrow> Answered answer (length top) (length context),
               [prompt])))"

section \<open>The specification's words, for comparison with the code\<close>

text \<open>
  The tokens of a text as the specification describes them: the maximal runs of word
  characters of the lower-cased text, from left to right.
\<close>

function word_runs :: "string \<Rightarrow> string list" where
  "word_runs s =
     (case dropWhile (\<lambda>c. \<not> is_word c) s of
        [] \<Rightarrow> []
      | c # cs \<Rightarrow> (c # takeWhile is_word cs) # word_runs (dropWhile is_word cs))"
  by pat_completeness auto
termination
proof (relation "measure length")
  fix s :: string and c :: char and cs :: string
  assume a: "dropWhile (\<lambda>c. \<not> is_word c) s = c # cs"
  have "length (dropWhile is_word cs) \<le> length cs" by (rule length_dropWhile_le)
  moreover have "length (c # cs) \<le> length s"
    unfolding a [symmetric] by (rule length_dropWhile_le)
  ultimately show "(dropWhile is_word cs, s) \<in> measure length" by simp
qed simp

text \<open>Deduplication that keeps every element at its first occurrence.\<close>

function first_occurrences :: "'a list \<Rightarrow> 'a list" where
  "first_occurrences [] = []"
| "first_occurrences (x # xs) = x # first_occurrences (removeAll x xs)"
  by pat_completeness auto
termination
  by (relation "measure length") (auto simp: less_Suc_eq_le)

text \<open>
  \<open>buildVocabulary\<close> of the specification: the tokens of all segment texts in segment
  order, deduplicated by first occurrence, truncated to \<open>maxTerms\<close>.
\<close>

definition buildVocabulary_spec :: "string list \<Rightarrow> nat \<Rightarrow> string list" where
  "buildVocabulary_spec allSegmentTexts maxTerms =
     take maxTerms
       (first_occurrences (concat (map (\<lambda>t. word_runs (toLowerCase t)) allSegmentTexts)))"

text \<open>
  The overlap of the specification: the white-space-delimited words of the closed buffer,
  the trailing \<open>floor (overlapBudget / 5)\<close> of them, joined with single spaces.
\<close>

function whitespace_words :: "string \<Rightarrow> string list" where
  "whitespace_words s =
     (case dropWhile is_space s of
        [] \<Rightarrow> []
      | c # cs \<Rightarrow> (c # takeWhile (\<lambda>d. \<not> is_space d) cs)
                  # whitespace_words (dropWhile (\<lambda>d. \<not> is_space d) cs))"
  by pat_completeness auto
termination
proof (relation "measure length")
  fix s :: string and c :: char and cs :: string
  assume a: "dropWhile is_space s = c # cs"
  have "length (dropWhile (\<lambda>d. \<not> is_space d) cs) \<le> length cs" by (rule length_dropWhile_le)
  moreover have "length (c # cs) \<le> length s"
    unfolding a [symmetric] by (rule length_dropWhile_le)
  ultimately show "(dropWhile (\<lambda>d. \<not> is_space d) cs, s) \<in> measure length" by simp
qed simp

definition trailing :: "nat \<Rightarrow> 'a list \<Rightarrow> 'a list" where
  "trailing n xs = drop (length xs - n) xs"

definition overlap_spec :: "int \<Rightarrow> string \<Rightarrow> string" where
  "overlap_spec overlapBudget buffer =
     join '' '' (trailing (nat (overlapBudget div 5)) (whitespace_words buffer))"

section \<open>Properties of the code\<close>

text \<open>
  The equations of the functions below unfold without end; they are used one step at a
  time.
\<close>

declare match_words_from.simps [simp del] isqrt_between.simps [simp del]
  show_nat.simps [simp del] word_runs.simps [simp del] whitespace_words.simps [simp del]


subsection \<open>The chunker\<close>

lemma split_space_from_nonempty: "split_space_from cur s \<noteq> []"
  by (induction s arbitrary: cur) auto

lemma join_Cons: "ps \<noteq> [] \<Longrightarrow> join sep (p # ps) = p @ sep @ join sep ps"
  by (cases ps) auto

lemma join_split_space_from: "join '' '' (split_space_from cur s) = cur @ s"
  by (induction s arbitrary: cur) (auto simp: join_Cons split_space_from_nonempty)

lemma join_split_space: "join '' '' (split_space s) = s"
  by (simp add: split_space_def join_split_space_from)

lemma slice_from_trailing: "0 < n \<Longrightarrow> slice_from (- n) xs = trailing (nat n) xs"
  by (auto simp: slice_from_def trailing_def Let_def max_def nat_diff_distrib'
      intro: arg_cong [where f = "\<lambda>k. drop k xs"])

text \<open>
  With an overlap budget below 5 the start of the slice is \<open>-0\<close>, and the slice is the
  whole array: the new buffer is the closed buffer, a space and the paragraph.
\<close>

lemma zero_overlap_step:
  assumes "overlap div 5 = 0" and "closes chunkSize st para"
  shows "currentChunk (chunk_step chunkSize overlap st para) = currentChunk st @ '' '' @ para"
  using assms by (simp add: chunk_step_def overlapWords_def slice_from_def join_split_space)

text \<open>
  C2. When \<open>floor (overlap / 5)\<close> is 0, the buffer after a closed segment is to start
  empty, before the paragraph is appended. The code does otherwise:
  \<^verbatim>\<open>chunkText("aaa\n\nbbb", 4, 0)\<close> closes the segment \<^verbatim>\<open>aaa\<close> and carries all of it into
  the next buffer, so that the second segment is \<^verbatim>\<open>aaa bbb\<close> and not \<^verbatim>\<open>bbb\<close>.
\<close>

theorem zero_overlap_carries_whole_buffer:
  "chunkText (''aaa'' @ [newline, newline] @ ''bbb'') 4 0 =
     [\<lparr>chunk_id = 0, chunk_text = ''aaa''\<rparr>, \<lparr>chunk_id = 1, chunk_text = ''aaa bbb''\<rparr>]"
  by code_simp

text \<open>
  The overlap is not made of the white-space-delimited words of the closed buffer. In
  \<^verbatim>\<open>chunkText("a\n\nb c\n\nd", 6, 10)\<close> the segment \<^verbatim>\<open>a\n\nb c\<close> is closed at the paragraph
  \<^verbatim>\<open>d\<close> with two words to keep. The trailing two words are \<^verbatim>\<open>b\<close> and \<^verbatim>\<open>c\<close>, but the code
  splits at single spaces only, keeps the pieces \<^verbatim>\<open>a\n\nb\<close> and \<^verbatim>\<open>c\<close>, and the new buffer
  is \<^verbatim>\<open>a\n\nb c d\<close>.
\<close>

theorem overlap_is_not_whitespace_words:
  "(let st = foldl (chunk_step 6 10) \<lparr>chunks_so_far = [], currentChunk = [], chunkIndex = 0\<rparr>
               (split_paragraphs (''a'' @ [newline, newline] @ ''b c''))
    in closes 6 st ''d''
       \<and> overlap_spec 10 (currentChunk st) = ''b c''
       \<and> currentChunk (chunk_step 6 10 st ''d'') = ''a'' @ [newline, newline] @ ''b c d''
       \<and> currentChunk (chunk_step 6 10 st ''d'') \<noteq> overlap_spec 10 (currentChunk st) @ ''d''
       \<and> currentChunk (chunk_step 6 10 st ''d'') \<noteq> overlap_spec 10 (currentChunk st) @ '' d'')"
  by code_simp

text \<open>
  C3, as amended. Whenever a segment is closed and \<open>floor (overlap / 5)\<close> is positive, the
  new buffer is made of the trailing \<open>floor (overlap / 5)\<close> pieces of the closed buffer
  split at single space characters (all pieces when there are fewer), joined with
  single spaces, then one space and the paragraph that triggered the split.
\<close>

theorem overlap_of_closed_segment:
  assumes "closes chunkSize st para" and "0 < overlap div 5"
  shows "currentChunk (chunk_step chunkSize overlap st para) =
           join '' '' (trailing (nat (overlap div 5)) (split_space (currentChunk st)))
             @ '' '' @ para"
  using assms by (simp add: chunk_step_def overlapWords_def slice_from_trailing)

theorem overlap_of_closed_segment_witness:
  "closes 8 \<lparr>chunks_so_far = [], currentChunk = ''one two three'', chunkIndex = 0\<rparr> ''four''
   \<and> (0::int) < 10 div 5
   \<and> currentChunk (chunk_step 8 10
          \<lparr>chunks_so_far = [], currentChunk = ''one two three'', chunkIndex = 0\<rparr> ''four'')
       = ''two three four''"
proof -
  have c: "closes 8 \<lparr>chunks_so_far = [], currentChunk = ''one two three'', chunkIndex = 0\<rparr> ''four''"
    by code_simp
  have p: "(0::int) < 10 div 5" by simp
  have e: "join '' '' (trailing (nat (10 div 5)) (split_space ''one two three'')) @ '' '' @ ''four''
             = ''two three four''"
    by code_simp
  show ?thesis
    using overlap_of_closed_segment [OF c p] c p e by simp
qed

subsection \<open>The vocabulary\<close>

lemma match_word_at_Nil: "match_word_at prev [] = None"
  by (simp add: match_word_at_def word_boundary_def)

lemma match_word_at_nonword: "\<not> is_word c \<Longrightarrow> match_word_at prev (c # cs) = None"
  by (simp add: match_word_at_def)

lemma match_word_at_inside: "is_word c \<Longrightarrow> match_word_at True (c # cs) = None"
  by (simp add: match_word_at_def word_boundary_def)

lemma word_boundary_run_end:
  assumes "is_word c"
  shows "word_boundary prev (c # cs) (Suc (length (takeWhile is_word cs)))"
proof -
  let ?k = "length (takeWhile is_word cs)"
  have k: "?k \<le> length cs" by (rule length_takeWhile_le)
  have before: "is_word ((c # cs) ! ?k)"
  proof (cases ?k)
    case 0
    then show ?thesis using assms by simp
  next
    case (Suc j)
    then have "j < length (takeWhile is_word cs)" by simp
    then have "is_word (takeWhile is_word cs ! j)"
      by (metis nth_mem set_takeWhileD)
    moreover have "takeWhile is_word cs ! j = cs ! j"
      using \<open>j < length (takeWhile is_word cs)\<close> by (rule takeWhile_nth)
    ultimately show ?thesis using Suc by simp
  qed
  have after: "\<not> (?k < length cs \<and> is_word (cs ! ?k))"
    using nth_length_takeWhile [of is_word cs] by blast
  show ?thesis
    using before after k by (simp add: word_boundary_def)
qed

lemma match_word_at_word:
  assumes "is_word c"
  shows "match_word_at False (c # cs) = Some (c # takeWhile is_word cs, dropWhile is_word cs)"
proof -
  let ?k = "length (takeWhile is_word cs)"
  have cand: "rev [1..<Suc (length (takeWhile is_word (c # cs)))] = Suc ?k # rev [1..<Suc ?k]"
    using assms by simp
  have b: "word_boundary False (c # cs) (Suc ?k)"
    using assms by (rule word_boundary_run_end)
  have b0: "word_boundary False (c # cs) 0"
    using assms by (simp add: word_boundary_def)
  have f: "find (word_boundary False (c # cs)) (rev [1..<Suc (length (takeWhile is_word (c # cs)))])
             = Some (Suc ?k)"
    unfolding cand using b by (simp only: find.simps if_True)
  have td: "take ?k cs = takeWhile is_word cs" "drop ?k cs = dropWhile is_word cs"
    by (rule takeWhile_eq_take [symmetric], rule dropWhile_eq_drop [symmetric])
  show ?thesis
    unfolding match_word_at_def f using b0 td by (simp only: if_True option.map take_Suc_Cons drop_Suc_Cons)
qed

lemma word_runs_Nil: "word_runs [] = []"
  by (simp add: word_runs.simps)

lemma word_runs_nonword: "\<not> is_word c \<Longrightarrow> word_runs (c # cs) = word_runs cs"
  by (simp add: word_runs.simps [of "c # cs"] word_runs.simps [of cs])

lemma word_runs_word:
  "is_word c \<Longrightarrow> word_runs (c # cs) = (c # takeWhile is_word cs) # word_runs (dropWhile is_word cs)"
  by (simp add: word_runs.simps [of "c # cs"])

lemma last_run_word: "is_word c \<Longrightarrow> is_word (last (c # takeWhile is_word cs))"
  by (metis last_in_set list.distinct(1) set_ConsD set_takeWhileD)

lemma match_words_from_runs:
  "match_words_from prev s = word_runs (if prev then dropWhile is_word s else s)"
proof (induction prev s rule: match_words_from.induct)
  case (1 prev s)
  show ?case
  proof (cases s)
    case Nil
    then show ?thesis
      by (simp add: match_words_from.simps [of prev "[]"] match_word_at_Nil word_runs_Nil)
  next
    case (Cons c cs)
    show ?thesis
    proof (cases "is_word c")
      case False
      then have none: "match_word_at prev s = None"
        using Cons by (simp add: match_word_at_nonword)
      have "match_words_from prev s = match_words_from False cs"
        using none Cons False by (subst match_words_from.simps) simp
      also have "\<dots> = word_runs cs"
        using "1.IH"(1) [OF none Cons] False by simp
      finally show ?thesis
        using Cons False by (simp add: word_runs_nonword)
    next
      case True
      show ?thesis
      proof (cases prev)
        case prevT: True
        then have none: "match_word_at prev s = None"
          using Cons True by (simp add: match_word_at_inside)
        have "match_words_from prev s = match_words_from True cs"
          using none Cons True by (subst match_words_from.simps) simp
        also have "\<dots> = word_runs (dropWhile is_word cs)"
          using "1.IH"(1) [OF none Cons] True by simp
        finally show ?thesis
          using Cons True prevT by simp
      next
        case prevF: False
        let ?m = "c # takeWhile is_word cs" and ?rest = "dropWhile is_word cs"
        have some: "match_word_at prev s = Some (?m, ?rest)"
          using Cons True prevF by (simp add: match_word_at_word)
        have "match_words_from prev s = ?m # match_words_from (is_word (last ?m)) ?rest"
          using some by (subst match_words_from.simps) (simp del: last.simps)
        also have "match_words_from (is_word (last ?m)) ?rest = word_runs ?rest"
          using "1.IH"(2) [OF some refl] last_run_word [OF True, of cs] by simp
        finally show ?thesis
          using Cons True prevF by (simp add: word_runs_word)
      qed
    qed
  qed
qed

lemma words_of_runs: "words_of text = word_runs (toLowerCase text)"
  by (simp add: words_of_def match_words_from_runs)

lemma foldl_set_add:
  "foldl set_add acc xs = acc @ first_occurrences (filter (\<lambda>x. x \<notin> set acc) xs)"
proof (induction xs arbitrary: acc)
  case Nil
  then show ?case by simp
next
  case (Cons x xs)
  show ?case
  proof (cases "x \<in> set acc")
    case True
    then show ?thesis using Cons.IH [of acc] by (simp add: set_add_def)
  next
    case False
    have "removeAll x (filter (\<lambda>y. y \<notin> set acc) xs) = filter (\<lambda>y. y \<notin> set (acc @ [x])) xs"
      by (induction xs) auto
    then show ?thesis using False Cons.IH [of "acc @ [x]"] by (simp add: set_add_def)
  qed
qed

lemma new_Set_first_occurrences: "new_Set xs = first_occurrences xs"
  by (simp add: new_Set_def foldl_set_add)

text \<open>
  C6. The vocabulary that the upload handler builds from the chunks is the one that
  \<open>buildVocabulary\<close> describes, for the segment texts in segment order and the limit
  500 that the handler uses: the lower-cased maximal runs of word characters of all
  segments, deduplicated by first occurrence, truncated to the first 500.
\<close>

theorem vocabulary_refines_spec:
  "vocabulary_of cs = buildVocabulary_spec (map chunk_text cs) 500"
  by (simp add: vocabulary_of_def buildVocabulary_spec_def allWords_def
      new_Set_first_occurrences words_of_runs comp_def)

subsection \<open>The document store\<close>

lemma show_nat_nonempty: "show_nat n \<noteq> []"
  by (subst show_nat.simps) simp

lemma show_nat_0: "show_nat 0 = ''0''"
  by code_simp

text \<open>Different clock readings give different identifiers.\<close>

lemma digit_inj:
  assumes "a < 10" and "b < 10" and "(char_of (48 + a) :: char) = char_of (48 + b)"
  shows "a = (b :: nat)"
proof -
  have "(of_char (char_of (48 + a) :: char) :: nat) = of_char (char_of (48 + b) :: char)"
    using assms(3) by simp
  then have "(48 + a) mod 256 = (48 + b) mod 256" by (simp only: of_char_of)
  then show ?thesis using assms(1,2) by simp
qed

lemma show_nat_small: "n < 10 \<Longrightarrow> show_nat n = [char_of (48 + n)]"
  by (subst show_nat.simps) simp

lemma show_nat_large:
  "\<not> n < 10 \<Longrightarrow> show_nat n = show_nat (n div 10) @ [char_of (48 + n mod 10)]"
  by (subst show_nat.simps) simp

lemma show_nat_inj: "show_nat a = show_nat b \<Longrightarrow> a = b"
proof (induction a arbitrary: b rule: less_induct)
  case (less a)
  show ?case
  proof (cases "a < 10")
    case a: True
    show ?thesis
    proof (cases "b < 10")
      case True
      then show ?thesis using less.prems a by (simp add: show_nat_small digit_inj)
    next
      case False
      then show ?thesis
        using less.prems a show_nat_nonempty [of "b div 10"]
        by (simp add: show_nat_small show_nat_large)
    qed
  next
    case a: False
    show ?thesis
    proof (cases "b < 10")
      case True
      then show ?thesis
        using less.prems a show_nat_nonempty [of "a div 10"]
        by (simp add: show_nat_small show_nat_large)
    next
      case False
      have e: "show_nat (a div 10) = show_nat (b div 10)"
        and d: "(char_of (48 + a mod 10) :: char) = char_of (48 + b mod 10)"
        using less.prems a False by (simp_all add: show_nat_large)
      have "a div 10 < a" using a by simp
      from less.IH [OF this e] have q: "a div 10 = b div 10" .
      have r: "a mod 10 = b mod 10" using d by (intro digit_inj) simp_all
      show ?thesis using q r by (metis div_mult_mod_eq)
    qed
  qed
qed

lemma length_embedding: "length (fst (simpleEmbedding text (Some voc))) = length voc"
  by (simp add: simpleEmbedding_def Let_def)

text \<open>
  Over a vocabulary without a name of \<^verbatim>\<open>Object.prototype\<close> the embedding is the vector of
  the occurrence counts of the vocabulary words among the tokens of the text.
\<close>

lemma embedding_is_count_vector:
  assumes "set voc \<inter> set prototype_keys = {}"
  shows "fst (simpleEmbedding text (Some voc)) =
         count_vector (map (count_list (words_of text)) voc)"
  using assms by (auto simp: simpleEmbedding_def Let_def count_vector_def wordCount_def)

lemma build_document_lengths:
  "c \<in> set (chunks (build_document text numpages)) \<Longrightarrow>
     length (embedding c) = length (vocabulary (build_document text numpages))"
  by (auto simp: build_document_def Let_def with_embedding_def length_embedding)

lemma build_document_vocabulary: "length (vocabulary (build_document text numpages)) \<le> 500"
  by (simp add: build_document_def Let_def vocabulary_of_def)

lemma build_document_empty:
  "chunkText text 800 150 = [] \<Longrightarrow>
     build_document text numpages = \<lparr>chunks = [], vocabulary = [], pages = numpages, totalChunks = 0\<rparr>"
  by (simp add: build_document_def vocabulary_of_def allWords_def new_Set_def)

lemma falsy_simps: "falsy None" "falsy (Some s) = (s = [])"
  by (simp_all add: falsy_def)

lemma ask_known:
  "store docId = Some doc \<Longrightarrow> fst (ask completion engine store question (Some docId)) \<noteq> DocumentNotFound"
  by (auto simp: ask_def Let_def MissingInput_def DocumentNotFound_def split: sum.splits)


text \<open>
  C5. In the record that an upload stores, the vector of every chunk is as long as the
  vocabulary of the record, and the vocabulary has at most 500 terms.
\<close>

theorem stored_vectors_match_vocabulary:
  assumes "pdfParse f = Inr (text, numpages)"
  shows "\<exists>doc. fst (upload pdfParse now store (Some f)) (show_nat now) = Some doc
           \<and> (\<forall>c \<in> set (chunks doc). length (embedding c) = length (vocabulary doc))
           \<and> length (vocabulary doc) \<le> 500"
  using assms
  by (simp add: upload_def Let_def build_document_lengths build_document_vocabulary)

theorem stored_vectors_match_vocabulary_witness:
  "\<exists>doc. fst (upload Inr 1700000000000 Map.empty
                 (Some (''Cats are mammals.'' @ [newline, newline] @ ''Dogs are mammals too.'', 1)))
             (show_nat 1700000000000) = Some doc
           \<and> (\<forall>c \<in> set (chunks doc). length (embedding c) = length (vocabulary doc))
           \<and> length (vocabulary doc) \<le> 500"
  by (rule stored_vectors_match_vocabulary) (rule refl)

text \<open>
  When the extracted text chunks to no segment, the upload still succeeds: it stores a
  record with no chunks and an empty vocabulary under the identifier it generates, the
  decimal digits of the clock reading; and a later question on that identifier is not
  answered with "document not found", whatever the question, the completion capability
  and the engine are.
\<close>

lemma empty_document_is_registered:
  assumes "pdfParse f = Inr (text, numpages)" and "chunkText text 800 150 = []"
  shows "upload pdfParse now store (Some f) =
           (store(show_nat now \<mapsto> \<lparr>chunks = [], vocabulary = [], pages = numpages, totalChunks = 0\<rparr>),
            Uploaded (show_nat now) numpages 0
              (''Processed '' @ show_nat numpages @ '' pages into 0 searchable chunks''))
         \<and> (\<forall>completion engine question.
               fst (ask completion engine (fst (upload pdfParse now store (Some f))) question
                      (Some (show_nat now))) \<noteq> DocumentNotFound)"
proof -
  have u: "upload pdfParse now store (Some f) =
           (store(show_nat now \<mapsto> \<lparr>chunks = [], vocabulary = [], pages = numpages, totalChunks = 0\<rparr>),
            Uploaded (show_nat now) numpages 0
              (''Processed '' @ show_nat numpages @ '' pages into 0 searchable chunks''))"
    using assms by (simp add: upload_def build_document_empty Let_def show_nat_0)
  have "fst (ask completion engine (fst (upload pdfParse now store (Some f))) question
               (Some (show_nat now))) \<noteq> DocumentNotFound" for completion engine question
    unfolding u by (rule ask_known) simp
  then show ?thesis using u by blast
qed

lemma empty_document_example:
  "upload Inr 1700000000000 Map.empty (Some ([], 0)) =
     (Map.empty(show_nat 1700000000000 \<mapsto>
        \<lparr>chunks = [], vocabulary = [], pages = 0, totalChunks = 0\<rparr>),
      Uploaded (show_nat 1700000000000) 0 0
        (''Processed '' @ show_nat 0 @ '' pages into 0 searchable chunks''))"
proof -
  have c: "chunkText [] 800 150 = []" by code_simp
  show ?thesis
    using empty_document_is_registered
      [of Inr "([], 0)" "[]" 0 1700000000000 Map.empty, OF refl c] by blast
qed

text \<open>
  The identifier depends on the clock reading alone. Different readings give different
  identifiers, but an upload does not look at the store: the record that the store holds
  under the identifier, if any, is replaced.
\<close>

lemma upload_replaces:
  assumes "pdfParse f = Inr (text, numpages)"
  shows "fst (upload pdfParse now store (Some f)) =
         store(show_nat now \<mapsto> build_document text numpages)"
  using assms by (simp add: upload_def Let_def)

text \<open>
  C7. The record of an empty document is to be registered under a fresh identifier, and
  the handler says of its identifiers that they are unique. They are not: two uploads
  that are handled at the same clock reading get the same identifier. When a document
  with the text \<^verbatim>\<open>cat\<close> and then an empty document are handled at the reading
  1700000000000, the second upload answers with the identifier that the store already
  holds, and afterwards the store holds the empty record alone: the first document is
  lost.
\<close>

theorem uploads_at_one_clock_reading_share_the_identifier:
  "upload Inr 1700000000000 Map.empty (Some (''cat'', 1)) =
     ([show_nat 1700000000000 \<mapsto> build_document ''cat'' 1],
      Uploaded (show_nat 1700000000000) 1 1 ''Processed 1 pages into 1 searchable chunks'')
   \<and> map chunk_text (chunks (build_document ''cat'' 1)) = [''cat'']
   \<and> upload Inr 1700000000000 [show_nat 1700000000000 \<mapsto> build_document ''cat'' 1]
        (Some ([], 0)) =
     ([show_nat 1700000000000 \<mapsto> \<lparr>chunks = [], vocabulary = [], pages = 0, totalChunks = 0\<rparr>],
      Uploaded (show_nat 1700000000000) 0 0 ''Processed 0 pages into 0 searchable chunks'')"
proof -
  have c: "chunkText ''cat'' 800 150 = [\<lparr>chunk_id = 0, chunk_text = ''cat''\<rparr>]" by code_simp
  have e: "chunkText [] 800 150 = []" by code_simp
  have n: "show_nat 0 = ''0''" "show_nat 1 = ''1''" by code_simp+
  have t: "totalChunks (build_document ''cat'' 1) = 1"
    by (simp add: build_document_def Let_def c)
  have "upload Inr 1700000000000 Map.empty (Some (''cat'', 1)) =
     ([show_nat 1700000000000 \<mapsto> build_document ''cat'' 1],
      Uploaded (show_nat 1700000000000) 1 1 ''Processed 1 pages into 1 searchable chunks'')"
    using t n by (simp add: upload_def Let_def)
  moreover have "map chunk_text (chunks (build_document ''cat'' 1)) = [''cat'']"
    by (simp add: build_document_def Let_def c with_embedding_def)
  moreover have "upload Inr 1700000000000 [show_nat 1700000000000 \<mapsto> build_document ''cat'' 1]
        (Some ([], 0)) =
     ([show_nat 1700000000000 \<mapsto> \<lparr>chunks = [], vocabulary = [], pages = 0, totalChunks = 0\<rparr>],
      Uploaded (show_nat 1700000000000) 0 0 ''Processed 0 pages into 0 searchable chunks'')"
    by (simp add: upload_def Let_def build_document_empty e n)
  ultimately show ?thesis by blast
qed

text \<open>
  A question without text is refused as missing input before the store is read, also when
  its document identifier is unknown.
\<close>

theorem unknown_document_without_question:
  "Map.empty ''1'' = (None :: document option)
   \<and> fst (ask Inr insertion_sort Map.empty None (Some ''1'')) = MissingInput
   \<and> fst (ask Inr insertion_sort Map.empty None (Some ''1'')) \<noteq> DocumentNotFound"
  by (simp add: ask_def falsy_simps MissingInput_def DocumentNotFound_def)

text \<open>
  C8, as amended. For a document identifier that is not in the store, the ask handler
  fails with "missing input" when the question is missing or empty or the identifier is
  empty (or missing), and with "document not found" otherwise; in both cases no prompt is
  sent to the completion capability.
\<close>

theorem unknown_document_is_refused:
  assumes "store docId = None"
  shows "ask completion engine store question (Some docId) =
           (if falsy question \<or> docId = [] then MissingInput else DocumentNotFound, [])
         \<and> ask completion engine store question None = (MissingInput, [])"
  using assms by (simp add: ask_def falsy_simps)

theorem unknown_document_is_refused_witness:
  "Map.empty ''1'' = (None :: document option)
   \<and> ask Inr insertion_sort Map.empty (Some ''What are mammals?'') (Some ''1'') = (DocumentNotFound, [])"
proof -
  have n: "Map.empty ''1'' = (None :: document option)" by simp
  show ?thesis
    using unknown_document_is_refused [OF n, of Inr insertion_sort "Some ''What are mammals?''"] n
    by (simp add: falsy_simps)
qed



subsection \<open>Numbers\<close>

lemma pow2_pos [simp]: "0 < pow2 e"
  by (simp add: pow2_def)

lemma pow2_nonzero [simp]: "pow2 e \<noteq> 0"
  by (simp add: pow2_def)

lemma pow2_add: "pow2 (a + b) = pow2 a * pow2 b"
  by (simp add: pow2_def power_int_add)

lemma pow2_mono: "a \<le> b \<Longrightarrow> pow2 a \<le> pow2 b"
  by (simp add: pow2_def power_int_increasing)

lemma pow2_strict_mono: "a < b \<Longrightarrow> pow2 a < pow2 b"
  by (simp add: pow2_def power_int_strict_increasing)

lemma pow2_less_iff: "pow2 a < pow2 b \<longleftrightarrow> a < b"
  by (metis pow2_mono pow2_strict_mono linorder_not_less)

lemma pow2_nat: "pow2 (int n) = 2 ^ n"
  by (simp add: pow2_def)

lemma pow2_minus: "pow2 (- a) = 1 / pow2 a"
  by (simp add: pow2_def power_int_minus_divide)

lemma pow2_diff: "pow2 (a - b) = pow2 a / pow2 b"
  by (simp add: pow2_def power_int_diff)


lemma exponent_bounds:
  assumes "x \<noteq> 0"
  shows "pow2 (exponent x) \<le> \<bar>x\<bar> \<and> \<bar>x\<bar> < pow2 (exponent x + 1)"
proof -
  obtain p q where pq: "quotient_of \<bar>x\<bar> = (p, q)" by (cases "quotient_of \<bar>x\<bar>")
  have q: "0 < q" using pq by (rule quotient_of_denom_pos)
  have x: "\<bar>x\<bar> = of_int p / of_int q" using pq by (rule quotient_of_div)
  have "0 < \<bar>x\<bar>" using assms by simp
  then have p: "0 < p" using q x by (simp add: zero_less_divide_iff)
  let ?e = "bitlen p - bitlen q"
  have bp: "2 ^ nat (bitlen p - 1) \<le> p" "p < 2 ^ nat (bitlen p)" using bitlen_bounds [OF p] by auto
  have bq: "2 ^ nat (bitlen q - 1) \<le> q" "q < 2 ^ nat (bitlen q)" using bitlen_bounds [OF q] by auto
  have lp: "1 \<le> bitlen p" using p by (simp add: bitlen_alt_def)
  have lq: "1 \<le> bitlen q" using q by (simp add: bitlen_alt_def)
  have P1: "pow2 (bitlen p - 1) \<le> of_int p"
  proof -
    have "(of_int (2 ^ nat (bitlen p - 1)) :: rat) \<le> of_int p" using bp(1) by (simp only: of_int_le_iff)
    moreover have "pow2 (bitlen p - 1) = 2 ^ nat (bitlen p - 1)"
      using lp pow2_nat [of "nat (bitlen p - 1)"] by simp
    ultimately show ?thesis by simp
  qed
  have P2: "of_int p < pow2 (bitlen p)"
  proof -
    have "(of_int p :: rat) < of_int (2 ^ nat (bitlen p))" using bp(2) by (simp only: of_int_less_iff)
    moreover have "pow2 (bitlen p) = 2 ^ nat (bitlen p)"
      using lp pow2_nat [of "nat (bitlen p)"] by simp
    ultimately show ?thesis by simp
  qed
  have Q1: "pow2 (bitlen q - 1) \<le> of_int q"
  proof -
    have "(of_int (2 ^ nat (bitlen q - 1)) :: rat) \<le> of_int q" using bq(1) by (simp only: of_int_le_iff)
    moreover have "pow2 (bitlen q - 1) = 2 ^ nat (bitlen q - 1)"
      using lq pow2_nat [of "nat (bitlen q - 1)"] by simp
    ultimately show ?thesis by simp
  qed
  have Q2: "of_int q < pow2 (bitlen q)"
  proof -
    have "(of_int q :: rat) < of_int (2 ^ nat (bitlen q))" using bq(2) by (simp only: of_int_less_iff)
    moreover have "pow2 (bitlen q) = 2 ^ nat (bitlen q)"
      using lq pow2_nat [of "nat (bitlen q)"] by simp
    ultimately show ?thesis by simp
  qed
  have qpos: "(0::rat) < of_int q" using q by simp
  have lower: "pow2 (?e - 1) \<le> \<bar>x\<bar>"
  proof -
    have "pow2 (?e - 1) * of_int q \<le> pow2 (?e - 1) * pow2 (bitlen q)"
      using Q2 by (simp add: less_imp_le)
    also have "\<dots> = pow2 (bitlen p - 1)"
      by (simp add: pow2_add [symmetric])
    also have "\<dots> \<le> of_int p" by (rule P1)
    finally show ?thesis unfolding x using qpos by (simp add: pos_le_divide_eq)
  qed
  have upper: "\<bar>x\<bar> < pow2 (?e + 1)"
  proof -
    have "of_int p < pow2 (bitlen p)" by (rule P2)
    also have "\<dots> = pow2 (?e + 1) * pow2 (bitlen q - 1)"
      by (simp add: pow2_add [symmetric])
    also have "\<dots> \<le> pow2 (?e + 1) * of_int q"
      using Q1 by simp
    finally show ?thesis unfolding x using qpos by (simp add: pos_divide_less_eq)
  qed
  show ?thesis
  proof (cases "pow2 ?e \<le> \<bar>x\<bar>")
    case True
    then have "exponent x = ?e" by (simp add: exponent_def pq)
    then show ?thesis using True upper by simp
  next
    case False
    then have "exponent x = ?e - 1" by (simp add: exponent_def pq)
    then show ?thesis using False lower by simp
  qed
qed

lemma exponent_unique:
  assumes "pow2 e \<le> \<bar>x\<bar>" and "\<bar>x\<bar> < pow2 (e + 1)"
  shows "exponent x = e"
proof -
  have "0 < \<bar>x\<bar>" using assms(1) pow2_pos [of e] by linarith
  then have "x \<noteq> 0" by simp
  from exponent_bounds [OF this]
  have b: "pow2 (exponent x) \<le> \<bar>x\<bar>" "\<bar>x\<bar> < pow2 (exponent x + 1)" by auto
  have "pow2 e < pow2 (exponent x + 1)" using assms(1) b(2) by linarith
  then have "e < exponent x + 1" by (simp add: pow2_less_iff)
  moreover have "pow2 (exponent x) < pow2 (e + 1)" using assms(2) b(1) by linarith
  then have "exponent x < e + 1" by (simp add: pow2_less_iff)
  ultimately show ?thesis by simp
qed

lemma round_half_even_error: "\<bar>of_int (round_half_even q) - q\<bar> \<le> 1 / 2"
proof -
  have "of_int \<lfloor>q\<rfloor> \<le> q" "q < of_int \<lfloor>q\<rfloor> + 1" by linarith+
  then show ?thesis by (auto simp: round_half_even_def Let_def)
qed

lemma round_half_even_eq:
  assumes "\<bar>q - of_int m\<bar> < 1 / 2"
  shows "round_half_even q = m"
proof -
  have "\<bar>of_int (round_half_even q) - q\<bar> \<le> 1 / 2" by (rule round_half_even_error)
  with assms have "\<bar>(of_int (round_half_even q) :: rat) - of_int m\<bar> < 1" by linarith
  then have "\<bar>(of_int (round_half_even q - m) :: rat)\<bar> < 1" by simp
  then have "\<bar>round_half_even q - m\<bar> < 1" by (metis of_int_abs of_int_less_1_iff)
  then show ?thesis by simp
qed

lemma round_half_even_of_int: "round_half_even (of_int m) = m"
  by (rule round_half_even_eq) simp


lemma nearest_double_eval:
  assumes "pow2 e \<le> \<bar>x\<bar>" and "\<bar>x\<bar> < pow2 (e + 1)"
    and "\<bar>x / pow2 (max (e - 52) (- 1074)) - of_int m\<bar> < 1 / 2"
  shows "nearest_double x = of_int m * pow2 (max (e - 52) (- 1074))"
proof -
  have e: "exponent x = e" using assms(1,2) by (rule exponent_unique)
  have "0 < \<bar>x\<bar>" using assms(1) pow2_pos [of e] by linarith
  then have "x \<noteq> 0" by simp
  then show ?thesis
    using assms(3) by (simp add: nearest_double_def ulp_def e round_half_even_eq)
qed

lemma nearest_double_error:
  assumes "pow2 (- 1022) \<le> \<bar>x\<bar>"
  shows "\<bar>nearest_double x - x\<bar> \<le> \<bar>x\<bar> / 2 ^ 53"
proof -
  have "0 < \<bar>x\<bar>" using assms pow2_pos [of "- 1022"] by linarith
  then have x: "x \<noteq> 0" by simp
  let ?e = "exponent x"
  have b: "pow2 ?e \<le> \<bar>x\<bar>" "\<bar>x\<bar> < pow2 (?e + 1)" using exponent_bounds [OF x] by auto
  have "pow2 (- 1022) < pow2 (?e + 1)" using assms b(2) by linarith
  then have "- 1022 < ?e + 1" by (simp add: pow2_less_iff)
  then have "max (?e - 52) (- 1074) = ?e - 52" by linarith
  then have u: "ulp x = pow2 (?e - 52)" by (simp add: ulp_def)
  let ?u = "pow2 (?e - 52)"
  have upos: "0 < ?u" by simp
  have "\<bar>of_int (round_half_even (x / ?u)) - x / ?u\<bar> \<le> 1 / 2" by (rule round_half_even_error)
  then have "\<bar>of_int (round_half_even (x / ?u)) - x / ?u\<bar> * ?u \<le> 1 / 2 * ?u"
    using upos by (simp only: mult_le_cancel_right_pos)
  moreover have "\<bar>of_int (round_half_even (x / ?u)) - x / ?u\<bar> * ?u
        = \<bar>of_int (round_half_even (x / ?u)) * ?u - x\<bar>"
  proof -
    have "\<bar>of_int (round_half_even (x / ?u)) - x / ?u\<bar> * ?u
          = \<bar>(of_int (round_half_even (x / ?u)) - x / ?u) * ?u\<bar>"
      using upos by (simp add: abs_mult abs_of_pos)
    also have "(of_int (round_half_even (x / ?u)) - x / ?u) * ?u
          = of_int (round_half_even (x / ?u)) * ?u - x"
      using upos by (simp add: left_diff_distrib)
    finally show ?thesis .
  qed
  ultimately have "\<bar>nearest_double x - x\<bar> \<le> 1 / 2 * ?u"
    using x by (simp add: nearest_double_def u)
  also have "1 / 2 * ?u = pow2 ?e / 2 ^ 53"
  proof -
    have "pow2 (?e - 52) = pow2 ?e / pow2 52" by (rule pow2_diff)
    moreover have "pow2 52 = 2 ^ 52" using pow2_nat [of 52] by simp
    ultimately show ?thesis by simp
  qed
  also have "\<dots> \<le> \<bar>x\<bar> / 2 ^ 53" using b(1) by (simp add: divide_right_mono)
  finally show ?thesis .
qed

lemma nearest_double_of_int:
  assumes "\<bar>n\<bar> < 2 ^ 53"
  shows "nearest_double (of_int n) = of_int n"
proof (cases "n = 0")
  case True
  then show ?thesis by (simp add: nearest_double_def)
next
  case False
  let ?x = "of_int n :: rat"
  let ?e = "exponent ?x"
  have x: "?x \<noteq> 0" using False by simp
  have b: "pow2 ?e \<le> \<bar>?x\<bar>" "\<bar>?x\<bar> < pow2 (?e + 1)" using exponent_bounds [OF x] by auto
  have "1 \<le> \<bar>n\<bar>" using False by simp
  then have "(1::rat) \<le> \<bar>?x\<bar>" by (metis of_int_abs of_int_1_le_iff)
  then have "pow2 0 < pow2 (?e + 1)" using b(2) by (simp add: pow2_def)
  then have lo: "0 \<le> ?e" by (simp add: pow2_less_iff)
  have "\<bar>?x\<bar> < 2 ^ 53" using assms by (metis of_int_abs of_int_less_numeral_power_cancel_iff)
  then have "pow2 ?e < pow2 53" using b(1) pow2_nat [of 53] by simp
  then have hi: "?e < 53" by (simp add: pow2_less_iff)
  have "max (?e - 52) (- 1074) = ?e - 52" using lo by linarith
  then have u: "ulp ?x = pow2 (?e - 52)" by (simp add: ulp_def)
  define k where "k = nat (52 - ?e)"
  have k: "pow2 (52 - ?e) = 2 ^ k" using hi pow2_nat [of k] by (simp add: k_def)
  have "pow2 (?e - 52) * pow2 (52 - ?e) = pow2 ((?e - 52) + (52 - ?e))"
    by (rule pow2_add [symmetric])
  then have inv: "pow2 (?e - 52) * pow2 (52 - ?e) = 1"
    by (simp add: pow2_def)
  have "pow2 (52 - ?e) = 1 / pow2 (?e - 52)"
    using pow2_minus [of "?e - 52"] by simp
  then have "?x / pow2 (?e - 52) = ?x * pow2 (52 - ?e)"
    by simp
  also have "\<dots> = of_int (n * 2 ^ k)" by (simp add: k)
  finally have q: "?x / pow2 (?e - 52) = of_int (n * 2 ^ k)" .
  have "nearest_double ?x = of_int (n * 2 ^ k) * pow2 (?e - 52)"
    using x by (simp only: nearest_double_def u q round_half_even_of_int if_False)
  also have "\<dots> = ?x * (pow2 (52 - ?e) * pow2 (?e - 52))" by (simp add: k)
  also have "\<dots> = ?x" using inv by (simp add: mult.commute)
  finally show ?thesis .
qed

lemma to_number_Num:
  assumes "\<bar>nearest_double x\<bar> < 2 ^ 1024"
  shows "to_number x = Num (nearest_double x)"
  using assms by (auto simp: to_number_def Let_def)

lemma to_number_of_int: "\<bar>n\<bar> < 2 ^ 53 \<Longrightarrow> to_number (of_int n) = Num (of_int n)"
proof -
  assume a: "\<bar>n\<bar> < 2 ^ 53"
  then have n: "nearest_double (of_int n) = of_int n" by (rule nearest_double_of_int)
  have "\<bar>(of_int n :: rat)\<bar> < 2 ^ 53" using a by (metis of_int_abs of_int_less_numeral_power_cancel_iff)
  moreover have "(2::rat) ^ 53 < 2 ^ 1024" by (rule power_strict_increasing) simp_all
  ultimately have "\<bar>nearest_double (of_int n)\<bar> < 2 ^ 1024" unfolding n by linarith
  then have "to_number (of_int n) = Num (nearest_double (of_int n))" by (rule to_number_Num)
  then show ?thesis by (simp only: n)
qed

lemma to_number_of_nat: "n < 2 ^ 53 \<Longrightarrow> to_number (of_nat n) = Num (of_nat n)"
  using to_number_of_int [of "int n"] by simp

lemma isqrt_between_correct:
  assumes "lo * lo \<le> n" and "n < hi * hi"
  shows "isqrt_between n lo hi * isqrt_between n lo hi \<le> n
         \<and> n < (isqrt_between n lo hi + 1) * (isqrt_between n lo hi + 1)"
  using assms
proof (induction n lo hi rule: isqrt_between.induct)
  case (1 n lo hi)
  show ?case
  proof (cases "hi \<le> lo + 1")
    case True
    from True True have "hi * hi \<le> (lo + 1) * (lo + 1)" by (rule mult_le_mono)
    then show ?thesis
      using True "1.prems" by (subst (1 2 3 4) isqrt_between.simps) simp
  next
    case False
    let ?mid = "(lo + hi) div 2"
    show ?thesis
    proof (cases "?mid * ?mid \<le> n")
      case m: True
      have "isqrt_between n lo hi = isqrt_between n ?mid hi"
        using False m by (subst isqrt_between.simps) (simp add: Let_def)
      then show ?thesis
        using "1.IH"(1) [OF False refl m m "1.prems"(2)] by simp
    next
      case m: False
      have "isqrt_between n lo hi = isqrt_between n lo ?mid"
        using False m by (subst isqrt_between.simps) (simp add: Let_def)
      then show ?thesis
        using "1.IH"(2) [OF False refl m "1.prems"(1)] m by simp
    qed
  qed
qed

lemma isqrt_correct: "isqrt n * isqrt n \<le> n \<and> n < (isqrt n + 1) * (isqrt n + 1)"
  unfolding isqrt_def by (rule isqrt_between_correct) simp_all

lemma isqrt_unique:
  assumes "r * r \<le> n" and "n < (r + 1) * (r + 1)"
  shows "isqrt n = r"
proof -
  have c: "isqrt n * isqrt n \<le> n" "n < (isqrt n + 1) * (isqrt n + 1)"
    using isqrt_correct [of n] by auto
  have "r * r < (isqrt n + 1) * (isqrt n + 1)" using assms(1) c(2) by linarith
  then have "r < isqrt n + 1" by (metis mult_less_le_imp_less not_less zero_le less_imp_le mult_le_mono)
  moreover have "isqrt n * isqrt n < (r + 1) * (r + 1)" using assms(2) c(1) by linarith
  then have "isqrt n < r + 1" by (metis mult_less_le_imp_less not_less zero_le less_imp_le mult_le_mono)
  ultimately show ?thesis by simp
qed


lemma pow2_numeral: "pow2 (numeral n) = 2 ^ numeral n"
  by (simp add: pow2_def)

lemma pow2_neg_numeral: "pow2 (- numeral n) = 1 / 2 ^ numeral n"
  by (simp add: pow2_def power_int_minus_divide)

lemma pow2_0: "pow2 0 = 1"
  by (simp add: pow2_def)

lemma pow2_1: "pow2 1 = 2"
  by (simp add: pow2_def)

lemma pow2_neg_1: "pow2 (- 1) = 1 / 2"
  by (simp add: pow2_def power_int_minus_divide)

lemmas pow2_eval = pow2_numeral pow2_neg_numeral pow2_0 pow2_1 pow2_neg_1

lemma to_number_eval:
  assumes "pow2 e \<le> \<bar>x\<bar>" and "\<bar>x\<bar> < pow2 (e + 1)"
    and "\<bar>x / pow2 (max (e - 52) (- 1074)) - of_int m\<bar> < 1 / 2"
    and "\<bar>of_int m * pow2 (max (e - 52) (- 1074))\<bar> < 2 ^ 1024"
  shows "to_number x = Num (of_int m * pow2 (max (e - 52) (- 1074)))"
proof -
  have n: "nearest_double x = of_int m * pow2 (max (e - 52) (- 1074))"
    using assms(1,2,3) by (rule nearest_double_eval)
  have "to_number x = Num (nearest_double x)"
    using assms(4) unfolding n [symmetric] by (rule to_number_Num)
  then show ?thesis by (simp only: n)
qed

lemma bitlen_1: "bitlen 1 = 1"
  by (simp add: bitlen_alt_def)

lemma sqrt_double_of_nat:
  fixes s :: nat
  defines "k \<equiv> nat ((111 - exponent (of_nat s)) div 2)"
  defines "r \<equiv> isqrt (s * 4 ^ k)"
  shows "sqrt_double (of_nat s) =
           nearest_double ((if r * r = s * 4 ^ k then of_nat r else of_nat r + 1 / 2) / 2 ^ k)"
proof -
  have q: "quotient_of (of_nat s :: rat) = (int s, 1)"
    using quotient_of_int [of "int s"] by simp
  have "nat (max (max 0 a) 0) = nat a" for a :: int
    by (simp add: max_def)
  then have k: "nat (max (max 0 ((111 - exponent (of_nat s)) div 2)) (bitlen 1 div 2)) = k"
    by (simp add: k_def bitlen_1)
  have "(of_nat s :: rat) * 4 ^ k = of_nat (s * 4 ^ k)" by simp
  then have f: "nat \<lfloor>(of_nat s :: rat) * 4 ^ k\<rfloor> = s * 4 ^ k" by (simp only: floor_of_nat nat_int)
  show ?thesis
    unfolding sqrt_double_def q by (simp only: prod.case Let_def k f r_def)
qed

lemma sqrt_double_2: "sqrt_double 2 = 6369051672525773 / 2 ^ 52"
proof -
  have e: "exponent (of_nat 2) = 1"
    by (rule exponent_unique) (simp_all add: pow2_eval)
  have r: "isqrt 2596148429267413814265248164610048 = 50952413380206180"
    by (rule isqrt_unique) simp_all
  have "sqrt_double (of_nat 2) = nearest_double ((50952413380206180 + 1 / 2) / 2 ^ 55)"
    unfolding sqrt_double_of_nat e by (simp add: r)
  also have "\<dots> = of_int 6369051672525773 * pow2 (max (0 - 52) (- 1074))"
    by (rule nearest_double_eval) (simp_all add: pow2_eval)
  finally show ?thesis by (simp add: pow2_eval)
qed

text \<open>
  The value is the double nearest to the square root of 2: the root lies within half a
  unit in the last place of it.
\<close>

lemma sqrt_2_is_nearest:
  "(sqrt_double 2 - 1 / 2 ^ 53) * (sqrt_double 2 - 1 / 2 ^ 53) < 2
   \<and> 2 < (sqrt_double 2 + 1 / 2 ^ 53) * (sqrt_double 2 + 1 / 2 ^ 53)"
  by (simp add: sqrt_double_2)


lemma js_mul_Num: "js_mul (Num x) (Num y) = to_number (x * y)"
  by (simp add: js_mul_def)

lemma js_add_Num: "js_add (Num x) (Num y) = to_number (x + y)"
  by (simp add: js_add_def)

lemma js_div_Num: "y \<noteq> 0 \<Longrightarrow> js_div (Num x) (Num y) = to_number (x / y)"
  by (simp add: js_div_def)

lemma add_square_count:
  assumes "acc + c * c < 2 ^ 53"
  shows "js_add (Num (of_nat acc)) (js_mul (Num (of_nat c)) (Num (of_nat c))) = Num (of_nat (acc + c * c))"
proof -
  have "c * c < 2 ^ 53" using assms by simp
  then have "to_number (of_nat (c * c)) = Num (of_nat (c * c))" by (rule to_number_of_nat)
  then have "js_mul (Num (of_nat c)) (Num (of_nat c)) = Num (of_nat (c * c))"
    by (simp add: js_mul_Num)
  moreover have "to_number (of_nat (acc + c * c)) = Num (of_nat (acc + c * c))"
    using assms by (rule to_number_of_nat)
  ultimately show ?thesis by (simp add: js_add_Num)
qed

lemma sum_squares_fold:
  "acc + (\<Sum>c\<leftarrow>cs. c * c) < 2 ^ 53 \<Longrightarrow>
     foldl (\<lambda>sum val. js_add sum (js_mul val val)) (Num (of_nat acc)) (count_vector cs)
       = Num (of_nat (acc + (\<Sum>c\<leftarrow>cs. c * c)))"
proof (induction cs arbitrary: acc)
  case Nil
  then show ?case by (simp add: count_vector_def)
next
  case (Cons c cs)
  have b: "acc + c * c < 2 ^ 53" using Cons.prems by simp
  have "(acc + c * c) + (\<Sum>c\<leftarrow>cs. c * c) < 2 ^ 53" using Cons.prems by (simp add: add.assoc)
  from Cons.IH [OF this] add_square_count [OF b] show ?case
    by (simp add: count_vector_def add.assoc)
qed

lemma dot_fold:
  "drop j v = ys \<Longrightarrow> acc + (\<Sum>c\<leftarrow>ys. c * c) < 2 ^ 53 \<Longrightarrow>
     foldl (\<lambda>sum (i, val). js_add sum (js_mul val (element (count_vector v) i)))
       (Num (of_nat acc)) (enumerate j (count_vector ys))
       = Num (of_nat (acc + (\<Sum>c\<leftarrow>ys. c * c)))"
proof (induction ys arbitrary: j acc)
  case Nil
  then show ?case by (simp add: count_vector_def)
next
  case (Cons c cs)
  have j: "j < length v" using Cons.prems(1) by (metis drop_eq_Nil list.distinct(1) not_le)
  have c: "v ! j = c" using Cons.prems(1) j by (metis Cons_nth_drop_Suc list.inject)
  have d: "drop (Suc j) v = cs" using Cons.prems(1) j by (metis Cons_nth_drop_Suc list.inject)
  have e: "element (count_vector v) j = Num (of_nat c)"
    using j c by (simp add: element_def count_vector_def)
  have b: "acc + c * c < 2 ^ 53" using Cons.prems(2) by simp
  have "(acc + c * c) + (\<Sum>c\<leftarrow>cs. c * c) < 2 ^ 53" using Cons.prems(2) by (simp add: add.assoc)
  from Cons.IH [OF d this] add_square_count [OF b] e show ?case
    by (simp add: count_vector_def add.assoc)
qed

lemma magnitude_count_vector:
  assumes "(\<Sum>c\<leftarrow>v. c * c) < 2 ^ 53"
  shows "magnitude (count_vector v) = js_sqrt (Num (of_nat (\<Sum>c\<leftarrow>v. c * c)))"
  using sum_squares_fold [of 0 v] assms by (simp add: magnitude_def)

lemma dotProduct_count_vector:
  assumes "(\<Sum>c\<leftarrow>v. c * c) < 2 ^ 53"
  shows "dotProduct (count_vector v) (count_vector v) = Num (of_nat (\<Sum>c\<leftarrow>v. c * c))"
  using dot_fold [of 0 v v 0] assms by (simp add: dotProduct_def count_vector_def)


lemma rel_error_bounds:
  fixes x z :: rat
  assumes "\<bar>z - x\<bar> \<le> \<bar>x\<bar> / 2 ^ 53" and "0 < x"
  shows "x * (1 - 1 / 2 ^ 53) \<le> z" and "z \<le> x * (1 + 1 / 2 ^ 53)"
proof -
  define d :: rat where "d = x / 2 ^ 53"
  have "\<bar>z - x\<bar> \<le> d" using assms by (simp add: d_def)
  then have "x - d \<le> z" "z \<le> x + d" by linarith+
  moreover have "x * (1 - 1 / 2 ^ 53) = x - d" "x * (1 + 1 / 2 ^ 53) = x + d"
    by (simp_all add: d_def algebra_simps)
  ultimately show "x * (1 - 1 / 2 ^ 53) \<le> z" and "z \<le> x * (1 + 1 / 2 ^ 53)" by simp_all
qed

lemma exponent_of_count:
  fixes s :: nat
  assumes "0 < s" and "s < 2 ^ 53"
  shows "0 \<le> exponent (of_nat s)" and "exponent (of_nat s) \<le> 52"
    and "pow2 (exponent (of_nat s)) \<le> of_nat s"
proof -
  let ?x = "of_nat s :: rat"
  let ?e = "exponent ?x"
  have x: "?x \<noteq> 0" using assms(1) by simp
  have b: "pow2 ?e \<le> \<bar>?x\<bar>" "\<bar>?x\<bar> < pow2 (?e + 1)" using exponent_bounds [OF x] by auto
  have "(1::rat) \<le> ?x" using assms(1) by simp
  then have "pow2 0 < pow2 (?e + 1)" using b(2) by (simp add: pow2_def)
  then show "0 \<le> ?e" by (simp add: pow2_less_iff)
  have "?x < 2 ^ 53" using assms(2) by (metis of_nat_less_numeral_power_cancel_iff)
  then have "pow2 ?e < pow2 53" using b(1) pow2_nat [of 53] by simp
  then have "?e < 53" by (simp add: pow2_less_iff)
  then show "?e \<le> 52" by simp
  show "pow2 ?e \<le> ?x" using b(1) by simp
qed

lemma sqrt_double_bounds:
  fixes s :: nat
  assumes "0 < s" and "s < 2 ^ 53"
  shows "\<exists>y. 1 \<le> y \<and> sqrt_double (of_nat s) = nearest_double y
              \<and> of_nat s * (1 - 1 / 2 ^ 53) \<le> y * y \<and> y * y \<le> of_nat s * (1 + 1 / 2 ^ 53)"
proof -
  let ?S = "of_nat s :: rat"
  let ?e = "exponent ?S"
  define k where "k = nat ((111 - ?e) div 2)"
  define N where "N = s * 4 ^ k"
  define r where "r = isqrt N"
  define Y :: rat where "Y = (if r * r = N then of_nat r else of_nat r + 1 / 2)"
  define y where "y = Y / 2 ^ k"
  have e: "0 \<le> ?e" "?e \<le> 52" "pow2 ?e \<le> ?S" using exponent_of_count [OF assms] by auto
  have Spos: "0 < ?S" using assms(1) by simp
  have sq: "sqrt_double ?S = nearest_double y"
    using sqrt_double_of_nat [of s] by (simp only: y_def Y_def r_def N_def k_def)
  have k55: "k \<le> 55" using e(1) by (simp add: k_def)
  have ik: "int k = (111 - ?e) div 2" using e(2) by (simp add: k_def)
  have k2: "110 - ?e \<le> 2 * int k" unfolding ik by presburger
  have p4: "(4::rat) ^ k = pow2 (2 * int k)"
  proof -
    have "(4::rat) ^ k = (2 ^ 2) ^ k" by simp
    also have "\<dots> = 2 ^ (2 * k)" by (simp only: power_mult)
    also have "\<dots> = pow2 (int (2 * k))" by (simp only: pow2_nat)
    finally show ?thesis by simp
  qed
  have Nq: "(of_nat N :: rat) = ?S * 4 ^ k" by (simp add: N_def)
  have Nbig: "(2::rat) ^ 110 \<le> of_nat N"
  proof -
    have "(2::rat) ^ 110 = pow2 110" using pow2_nat [of 110] by simp
    also have "\<dots> \<le> pow2 (?e + 2 * int k)" using k2 by (intro pow2_mono) simp
    also have "\<dots> = pow2 ?e * pow2 (2 * int k)" by (rule pow2_add)
    also have "\<dots> \<le> ?S * pow2 (2 * int k)" using e(3) by (simp add: mult_right_mono less_imp_le)
    finally show ?thesis by (simp add: Nq p4)
  qed
  have c: "r * r \<le> N" "N < (r + 1) * (r + 1)" using isqrt_correct [of N] by (auto simp: r_def)
  have "(of_nat (r * r) :: rat) \<le> of_nat N"
    using c(1) by (simp only: of_nat_le_iff)
  then have cq1: "(of_nat r :: rat) * of_nat r \<le> of_nat N" by simp
  have "(of_nat N :: rat) < of_nat ((r + 1) * (r + 1))"
    using c(2) by (simp only: of_nat_less_iff)
  then have cq2: "(of_nat N :: rat) < (of_nat r + 1) * (of_nat r + 1)"
    by (simp add: algebra_simps)
  have rbig: "(2::rat) ^ 55 \<le> of_nat r"
  proof (rule ccontr)
    assume "\<not> (2::rat) ^ 55 \<le> of_nat r"
    then have "(of_nat r :: rat) < 2 ^ 55" by simp
    then have "r < 2 ^ 55" by (metis of_nat_less_numeral_power_cancel_iff)
    then have "r + 1 \<le> 2 ^ 55" by simp
    then have "(of_nat (r + 1) :: rat) \<le> of_nat (2 ^ 55)"
      by (simp only: of_nat_le_iff)
    then have "(of_nat r :: rat) + 1 \<le> 2 ^ 55" by simp
    then have "((of_nat r :: rat) + 1) * (of_nat r + 1) \<le> 2 ^ 55 * 2 ^ 55"
      by (intro mult_mono) simp_all
    also have "\<dots> = (2::rat) ^ 110" by simp
    finally show False using cq2 Nbig by linarith
  qed
  have "(0::rat) < 2 ^ 55" by simp
  then have rpos: "(0::rat) < of_nat r" using rbig by linarith
  have Ybounds: "of_nat N * (1 - 1 / 2 ^ 53) \<le> Y * Y \<and> Y * Y \<le> of_nat N * (1 + 1 / 2 ^ 53)"
  proof (cases "r * r = N")
    case True
    then have "Y * Y = of_nat N" by (simp add: Y_def) (metis of_nat_mult)
    moreover have "(0::rat) \<le> of_nat N" by simp
    ultimately show ?thesis by (simp add: algebra_simps)
  next
    case False
    then have "r * r + 1 \<le> N" using c(1) by simp
    then have "(of_nat (r * r + 1) :: rat) \<le> of_nat N"
      by (simp only: of_nat_le_iff)
    then have lo: "(of_nat r :: rat) * of_nat r + 1 \<le> of_nat N" by simp
    have "N + 1 \<le> (r + 1) * (r + 1)" using c(2) by simp
    then have "(of_nat (N + 1) :: rat) \<le> of_nat ((r + 1) * (r + 1))"
      by (simp only: of_nat_le_iff)
    then have hi: "(of_nat N :: rat) + 1 \<le> (of_nat r + 1) * (of_nat r + 1)"
      by (simp add: algebra_simps)
    have Y: "Y * Y = of_nat r * of_nat r + of_nat r + 1 / 4"
      using False by (simp add: Y_def algebra_simps)
    have "(2::rat) ^ 55 * of_nat r \<le> of_nat r * of_nat r"
      using rbig rpos by (simp add: mult_right_mono)
    then have "(2::rat) ^ 55 * of_nat r \<le> of_nat N" using cq1 by linarith
    then have rN: "(of_nat r :: rat) \<le> of_nat N / 2 ^ 55" by (simp add: field_simps)
    have "(of_nat N :: rat) / 2 ^ 55 \<le> of_nat N / 2 ^ 53"
      by (intro divide_left_mono) simp_all
    then have rN': "(of_nat r :: rat) \<le> of_nat N / 2 ^ 53" using rN by linarith
    have d1: "Y * Y - of_nat N \<le> of_nat r" using Y lo by linarith
    have d2: "of_nat N - Y * Y \<le> of_nat r" using Y hi by (simp add: algebra_simps)
    show ?thesis using d1 d2 rN' by (simp add: algebra_simps)
  qed
  have kpos: "(0::rat) < 4 ^ k" by simp
  have yy: "y * y = Y * Y / 4 ^ k"
  proof -
    have "(2::rat) ^ k * 2 ^ k = 4 ^ k" by (simp add: power_mult_distrib [symmetric])
    then show ?thesis by (simp add: y_def)
  qed
  have SN: "?S = of_nat N / 4 ^ k" by (simp add: Nq)
  have b1: "?S * (1 - 1 / 2 ^ 53) \<le> y * y"
  proof -
    have "of_nat N * (1 - 1 / 2 ^ 53) / 4 ^ k \<le> Y * Y / 4 ^ k"
      using Ybounds kpos by (simp only: divide_right_mono less_imp_le)
    then show ?thesis unfolding yy SN by simp
  qed
  have b2: "y * y \<le> ?S * (1 + 1 / 2 ^ 53)"
  proof -
    have "Y * Y / 4 ^ k \<le> of_nat N * (1 + 1 / 2 ^ 53) / 4 ^ k"
      using Ybounds kpos by (simp only: divide_right_mono less_imp_le)
    then show ?thesis unfolding yy SN by simp
  qed
  have "of_nat r \<le> Y" by (simp add: Y_def)
  then have "(2::rat) ^ 55 \<le> Y" using rbig by linarith
  moreover have "(2::rat) ^ k \<le> 2 ^ 55" using k55 by (intro power_increasing) simp_all
  ultimately have "(2::rat) ^ k \<le> Y" by linarith
  then have y1: "1 \<le> y" by (simp add: y_def pos_le_divide_eq)
  show ?thesis using y1 sq b1 b2 by blast
qed


lemma scale_bounds:
  fixes a x z l h u :: rat
  assumes "0 \<le> u" and "u \<le> 1" and "a * l \<le> x" and "x \<le> a * h"
    and "x * (1 - u) \<le> z" and "z \<le> x * (1 + u)"
  shows "a * (l * (1 - u)) \<le> z" and "z \<le> a * (h * (1 + u))"
proof -
  have "a * l * (1 - u) \<le> x * (1 - u)" using assms(2,3) by (intro mult_right_mono) simp_all
  then show "a * (l * (1 - u)) \<le> z" using assms(5) by (simp add: mult.assoc)
  have "x * (1 + u) \<le> a * h * (1 + u)" using assms(1,4) by (intro mult_right_mono) simp_all
  then show "z \<le> a * (h * (1 + u))" using assms(6) by (simp add: mult.assoc)
qed

lemma square_bounds:
  fixes a y m l h u :: rat
  assumes "0 \<le> u" and "u \<le> 1" and "0 \<le> y" and "a * l \<le> y * y" and "y * y \<le> a * h"
    and "y * (1 - u) \<le> m" and "m \<le> y * (1 + u)"
  shows "a * (l * ((1 - u) * (1 - u))) \<le> m * m" and "m * m \<le> a * (h * ((1 + u) * (1 + u)))"
proof -
  have n: "0 \<le> y * (1 - u)" using assms(2,3) by simp
  then have m0: "0 \<le> m" using assms(6) by linarith
  have "a * l * ((1 - u) * (1 - u)) \<le> y * y * ((1 - u) * (1 - u))"
    using assms(2,4) by (intro mult_right_mono) simp_all
  also have "\<dots> = (y * (1 - u)) * (y * (1 - u))" by (simp add: algebra_simps)
  also have "\<dots> \<le> m * m" using n assms(6) by (intro mult_mono) simp_all
  finally show "a * (l * ((1 - u) * (1 - u))) \<le> m * m" by (simp add: mult.assoc)
  have "m * m \<le> (y * (1 + u)) * (y * (1 + u))"
    using m0 assms(7) by (intro mult_mono) simp_all
  also have "\<dots> = y * y * ((1 + u) * (1 + u))" by (simp add: algebra_simps)
  also have "\<dots> \<le> a * h * ((1 + u) * (1 + u))"
    using assms(1,5) by (intro mult_right_mono) simp_all
  finally show "m * m \<le> a * (h * ((1 + u) * (1 + u)))" by (simp add: mult.assoc)
qed

lemma quotient_bounds:
  fixes a p l h :: rat
  assumes "0 < a" and "0 < l" and "a * l \<le> p" and "p \<le> a * h"
  shows "1 / h \<le> a / p" and "a / p \<le> 1 / l"
proof -
  have al: "0 < a * l" using assms(1,2) by simp
  then have p: "0 < p" using assms(3) by linarith
  then have ah: "0 < a * h" using assms(4) by linarith
  then have h: "0 < h" using assms(1) by (simp add: zero_less_mult_iff)
  have "a / (a * h) \<le> a / p"
    using assms(1,4) p by (intro divide_left_mono) simp_all
  then show "1 / h \<le> a / p" using assms(1) by simp
  have "a / p \<le> a / (a * l)"
    using assms(1,3) al p by (intro divide_left_mono) simp_all
  then show "a / p \<le> 1 / l" using assms(1) by simp
qed

lemma pow2_normal_le_half: "pow2 (- 1022) \<le> 1 / 2"
proof -
  have "pow2 (- 1022) \<le> pow2 (- 1)" by (rule pow2_mono) simp
  then show ?thesis by (simp add: pow2_neg_1)
qed

lemma nearest_double_rel:
  assumes "1 / 2 \<le> x"
  shows "x * (1 - 1 / 2 ^ 53) \<le> nearest_double x" and "nearest_double x \<le> x * (1 + 1 / 2 ^ 53)"
proof -
  have x: "0 < x" using assms by linarith
  have "pow2 (- 1022) \<le> \<bar>x\<bar>" using assms pow2_normal_le_half by linarith
  then have "\<bar>nearest_double x - x\<bar> \<le> \<bar>x\<bar> / 2 ^ 53" by (rule nearest_double_error)
  from rel_error_bounds [OF this x]
  show "x * (1 - 1 / 2 ^ 53) \<le> nearest_double x" and "nearest_double x \<le> x * (1 + 1 / 2 ^ 53)" .
qed


lemma to_number_0: "to_number 0 = Num 0"
  by (simp add: to_number_def nearest_double_def)

lemma zero_times: "js_add (Num 0) (js_mul (Num 0) (Num r)) = Num 0"
  by (simp add: js_mul_Num js_add_Num to_number_0)

lemma times_zero: "js_add (Num 0) (js_mul (Num r) (Num 0)) = Num 0"
  by (simp add: js_mul_Num js_add_Num to_number_0)

lemma dot_zero_left:
  "j + n \<le> length rs \<Longrightarrow>
     foldl (\<lambda>sum (i, val). js_add sum (js_mul val (element (map Num rs) i))) (Num 0)
       (enumerate j (replicate n (Num 0))) = Num 0"
proof (induction n arbitrary: j)
  case 0
  then show ?case by simp
next
  case (Suc n)
  have "j < length rs" using Suc.prems by simp
  then have "element (map Num rs) j = Num (rs ! j)" by (simp add: element_def)
  moreover have "Suc j + n \<le> length rs" using Suc.prems by simp
  ultimately show ?case using Suc.IH [of "Suc j"] by (simp add: zero_times)
qed

lemma dot_zero_right:
  "j + length xs \<le> n \<Longrightarrow>
     foldl (\<lambda>sum (i, val). js_add sum (js_mul val (element (replicate n (Num 0)) i))) (Num 0)
       (enumerate j (map Num xs)) = Num 0"
proof (induction xs arbitrary: j)
  case Nil
  then show ?case by simp
next
  case (Cons x xs)
  have "j < n" using Cons.prems by simp
  then have "element (replicate n (Num 0)) j = Num 0" by (simp add: element_def)
  moreover have "Suc j + length xs \<le> n" using Cons.prems by simp
  ultimately show ?case using Cons.IH [of "Suc j"] by (simp add: times_zero)
qed

lemma magnitude_zero: "magnitude (replicate n (Num 0)) = Num 0"
proof -
  have "foldl (\<lambda>sum val. js_add sum (js_mul val val)) (Num 0) (replicate n (Num 0)) = Num 0"
    by (induction n) (simp_all add: zero_times)
  then show ?thesis by (simp add: magnitude_def js_sqrt_def)
qed

lemma zero_over_zero_left: "js_div (Num 0) (js_mul (Num 0) b) = NaN"
  by (cases b)
    (simp_all add: js_mul_def js_div_def to_number_0 signed_infinity_def sign_of_def)

lemma zero_over_zero_right: "js_div (Num 0) (js_mul b (Num 0)) = NaN"
  by (cases b)
    (simp_all add: js_mul_def js_div_def to_number_0 signed_infinity_def sign_of_def)

lemma zero_norm_left: "cosineSimilarity (replicate (length rs) (Num 0)) (map Num rs) = NaN"
  using dot_zero_left [of 0 "length rs" rs]
  by (simp add: cosineSimilarity_def dotProduct_def magnitude_zero zero_over_zero_left)

lemma zero_norm_right: "cosineSimilarity (map Num rs) (replicate (length rs) (Num 0)) = NaN"
  using dot_zero_right [of 0 rs "length rs"]
  by (simp add: cosineSimilarity_def dotProduct_def magnitude_zero zero_over_zero_right)

lemma sqrt_double_square:
  fixes j :: nat
  assumes "j < 2 ^ 53"
  shows "sqrt_double (of_nat (j * j)) = of_nat j"
proof -
  define k where "k = nat ((111 - exponent (of_nat (j * j))) div 2)"
  have sq: "(j * 2 ^ k) * (j * 2 ^ k) = j * j * 4 ^ k"
  proof -
    have "(2::nat) ^ k * 2 ^ k = 4 ^ k" by (simp add: power_mult_distrib [symmetric])
    then show ?thesis by (simp add: mult.assoc mult.left_commute)
  qed
  have r: "isqrt (j * j * 4 ^ k) = j * 2 ^ k"
  proof (rule isqrt_unique)
    show "j * 2 ^ k * (j * 2 ^ k) \<le> j * j * 4 ^ k" by (simp only: sq order_refl)
    have "j * 2 ^ k * (j * 2 ^ k) < (j * 2 ^ k + 1) * (j * 2 ^ k + 1)" by (simp add: algebra_simps)
    then show "j * j * 4 ^ k < (j * 2 ^ k + 1) * (j * 2 ^ k + 1)" by (simp only: sq)
  qed
  have "sqrt_double (of_nat (j * j)) = nearest_double (of_nat (j * 2 ^ k) / 2 ^ k)"
    unfolding sqrt_double_of_nat k_def [symmetric] r sq by (simp only: refl if_True)
  also have "(of_nat (j * 2 ^ k) :: rat) / 2 ^ k = of_int (int j)" by simp
  also have "nearest_double (of_int (int j)) = of_int (int j)"
    using assms by (intro nearest_double_of_int) simp
  finally show ?thesis by simp
qed

lemma self_similarity_of_1: "cosineSimilarity [Num 1] [Num 1] = Num 1"
proof -
  have v: "count_vector [1] = [Num 1]" by (simp add: count_vector_def)
  have d: "dotProduct [Num 1] [Num 1] = Num 1"
    using dotProduct_count_vector [of "[1]"] unfolding v by simp
  have "sqrt_double (of_nat (1 * 1)) = of_nat 1" by (rule sqrt_double_square) simp
  then have m: "magnitude [Num 1] = Num 1"
    using magnitude_count_vector [of "[1]"] unfolding v by (simp add: js_sqrt_def)
  have "to_number (of_int 1) = Num (of_int 1)" by (rule to_number_of_int) simp
  then have o: "to_number 1 = Num 1" by simp
  show ?thesis
    by (simp add: cosineSimilarity_def d m js_mul_Num js_div_Num o)
qed

lemma self_similarity_1_1:
  "cosineSimilarity [Num 1, Num 1] [Num 1, Num 1] = Num (1 - 1 / 2 ^ 52)"
proof -
  have v: "count_vector [1, 1] = [Num 1, Num 1]" by (simp add: count_vector_def)
  have s: "(\<Sum>c\<leftarrow>[1, 1 :: nat]. c * c) = 2" by simp
  have d: "dotProduct [Num 1, Num 1] [Num 1, Num 1] = Num 2"
    using dotProduct_count_vector [of "[1, 1]"] unfolding v s by simp
  have m: "magnitude [Num 1, Num 1] = Num (6369051672525773 / 2 ^ 52)"
    using magnitude_count_vector [of "[1, 1]"] unfolding v s
    by (simp add: js_sqrt_def sqrt_double_2)
  have p: "js_mul (Num (6369051672525773 / 2 ^ 52)) (Num (6369051672525773 / 2 ^ 52))
             = Num (2 + 1 / 2 ^ 51)"
  proof -
    have "to_number (6369051672525773 / 2 ^ 52 * (6369051672525773 / 2 ^ 52))
            = Num (of_int 4503599627370497 * pow2 (max (1 - 52) (- 1074)))"
      by (rule to_number_eval) (simp_all add: pow2_eval)
    then show ?thesis by (simp add: js_mul_Num pow2_eval)
  qed
  have q: "js_div (Num 2) (Num (2 + 1 / 2 ^ 51)) = Num (1 - 1 / 2 ^ 52)"
  proof -
    have "to_number (2 / (2 + 1 / 2 ^ 51))
            = Num (of_int 9007199254740990 * pow2 (max (- 1 - 52) (- 1074)))"
      by (rule to_number_eval) (simp_all add: pow2_eval)
    then show ?thesis by (simp add: js_div_Num pow2_eval)
  qed
  show ?thesis
    by (simp only: cosineSimilarity_def d m p q)
qed

lemma to_number_numeral:
  "(numeral n :: int) < 2 ^ 53 \<Longrightarrow> to_number (numeral n) = Num (numeral n)"
  using to_number_of_int [of "numeral n"] by simp

lemma similarity_of_the_example: "cosineSimilarity [Num 1, Num 0] [Num 2, Num 0] = Num 1"
proof -
  have o: "to_number 1 = Num 1" using to_number_of_int [of 1] by simp
  have d: "dotProduct [Num 1, Num 0] [Num 2, Num 0] = Num 2"
    by (simp add: dotProduct_def element_def js_mul_Num js_add_Num to_number_numeral to_number_0)
  have "sqrt_double (of_nat (1 * 1)) = of_nat 1" by (rule sqrt_double_square) simp
  then have a: "magnitude [Num 1, Num 0] = Num 1"
    by (simp add: magnitude_def js_mul_Num js_add_Num o to_number_0 js_sqrt_def)
  have "sqrt_double (of_nat (2 * 2)) = of_nat 2" by (rule sqrt_double_square) simp
  then have b: "magnitude [Num 2, Num 0] = Num 2"
    by (simp add: magnitude_def js_mul_Num js_add_Num to_number_numeral to_number_0 js_sqrt_def)
  show ?thesis
    by (simp add: cosineSimilarity_def d a b js_mul_Num js_div_Num to_number_numeral o)
qed

lemma self_similarity_of_1_0: "cosineSimilarity [Num 1, Num 0] [Num 1, Num 0] = Num 1"
proof -
  have o: "to_number 1 = Num 1" using to_number_of_int [of 1] by simp
  have d: "dotProduct [Num 1, Num 0] [Num 1, Num 0] = Num 1"
    by (simp add: dotProduct_def element_def js_mul_Num js_add_Num o to_number_0)
  have "sqrt_double (of_nat (1 * 1)) = of_nat 1" by (rule sqrt_double_square) simp
  then have a: "magnitude [Num 1, Num 0] = Num 1"
    by (simp add: magnitude_def js_mul_Num js_add_Num o to_number_0 js_sqrt_def)
  show ?thesis
    by (simp add: cosineSimilarity_def d a js_mul_Num js_div_Num o)
qed

subsection \<open>The similarity ranker\<close>

text \<open>
  C1. A vector of zero norm is to score 0. The code has no case for it: the dot product
  and the product of the norms are both 0, the quotient is \<open>0 / 0\<close>, and the score is
  \<^verbatim>\<open>NaN\<close>; so for \<^verbatim>\<open>[0, 0]\<close> against \<^verbatim>\<open>[1, 2]\<close>, and for the zero vector against every
  vector of finite numbers of its length, on either side.
\<close>

theorem zero_norm_scores_NaN:
  "cosineSimilarity [Num 0, Num 0] [Num 1, Num 2] = NaN
   \<and> cosineSimilarity [Num 1, Num 2] [Num 0, Num 0] = NaN
   \<and> (\<forall>rs. cosineSimilarity (replicate (length rs) (Num 0)) (map Num rs) = NaN
            \<and> cosineSimilarity (map Num rs) (replicate (length rs) (Num 0)) = NaN)"
  using zero_norm_left [of "[1, 2]"] zero_norm_right [of "[1, 2]"]
  by (simp add: zero_norm_left zero_norm_right numeral_2_eq_2)

text \<open>
  What consistency gives on the elements of the array: tying is an equivalence, and
  "sorts before" is a strict order on its classes, the converse of "sorts after".
\<close>

lemma consistentD:
  "consistent comparefn xs \<Longrightarrow> a \<in> set xs \<Longrightarrow> b \<in> set xs \<Longrightarrow> c \<in> set xs
     \<Longrightarrow> consistent_at comparefn a b c"
  by (simp add: consistent_def list_all_iff)

lemma insert_sorted_count:
  "count_list (insert_sorted comparefn x ys) z = count_list (x # ys) z"
  by (induction ys) auto

lemma insertion_sort_count: "count_list (insertion_sort comparefn xs) z = count_list xs z"
  by (induction xs) (simp_all add: insertion_sort_def insert_sorted_count)

lemma set_insert_sorted: "set (insert_sorted comparefn x ys) = insert x (set ys)"
  by (induction ys) auto

lemma set_insertion_sort: "set (insertion_sort comparefn xs) = set xs"
  by (induction xs) (simp_all add: insertion_sort_def set_insert_sorted)

lemma consistent_Cons: "consistent comparefn (x # xs) \<Longrightarrow> consistent comparefn xs"
  by (auto simp: consistent_def list_all_iff)

lemma tie_refl:
  "consistent comparefn xs \<Longrightarrow> a \<in> set xs \<Longrightarrow> compare_sign comparefn a a = 0"
  using consistentD [of comparefn xs a a a] by (simp add: consistent_at_def)

lemma tie_sym:
  "consistent comparefn xs \<Longrightarrow> a \<in> set xs \<Longrightarrow> b \<in> set xs
     \<Longrightarrow> compare_sign comparefn a b = 0 \<Longrightarrow> compare_sign comparefn b a = 0"
  using consistentD [of comparefn xs a b a] by (simp add: consistent_at_def)

lemma tie_trans:
  "consistent comparefn xs \<Longrightarrow> a \<in> set xs \<Longrightarrow> b \<in> set xs \<Longrightarrow> c \<in> set xs
     \<Longrightarrow> compare_sign comparefn a b = 0 \<Longrightarrow> compare_sign comparefn b c = 0
     \<Longrightarrow> compare_sign comparefn a c = 0"
  using consistentD [of comparefn xs a b c] by (simp add: consistent_at_def)

lemma before_trans:
  "consistent comparefn xs \<Longrightarrow> a \<in> set xs \<Longrightarrow> b \<in> set xs \<Longrightarrow> c \<in> set xs
     \<Longrightarrow> compare_sign comparefn a b < 0 \<Longrightarrow> compare_sign comparefn b c < 0
     \<Longrightarrow> compare_sign comparefn a c < 0"
  using consistentD [of comparefn xs a b c] by (simp add: consistent_at_def)

lemma after_trans:
  "consistent comparefn xs \<Longrightarrow> a \<in> set xs \<Longrightarrow> b \<in> set xs \<Longrightarrow> c \<in> set xs
     \<Longrightarrow> 0 < compare_sign comparefn a b \<Longrightarrow> 0 < compare_sign comparefn b c
     \<Longrightarrow> 0 < compare_sign comparefn a c"
  using consistentD [of comparefn xs a b c] by (simp add: consistent_at_def)

lemma after_before:
  assumes c: "consistent comparefn xs" and a: "a \<in> set xs" and b: "b \<in> set xs"
    and ab: "0 < compare_sign comparefn a b"
  shows "compare_sign comparefn b a < 0"
proof (rule ccontr)
  assume "\<not> compare_sign comparefn b a < 0"
  then consider "compare_sign comparefn b a = 0" | "0 < compare_sign comparefn b a"
    by linarith
  then show False
  proof cases
    case 1
    then have "compare_sign comparefn a b = 0" by (rule tie_sym [OF c b a])
    then show ?thesis using ab by simp
  next
    case 2
    have "0 < compare_sign comparefn a a" by (rule after_trans [OF c a b a ab 2])
    then show ?thesis using tie_refl [OF c a] by simp
  qed
qed

lemma not_after_trans:
  assumes c: "consistent comparefn xs"
    and x: "x \<in> set xs" and y: "y \<in> set xs" and z: "z \<in> set xs"
    and xy: "compare_sign comparefn x y \<le> 0" and yz: "compare_sign comparefn y z \<le> 0"
  shows "compare_sign comparefn x z \<le> 0"
proof (rule ccontr)
  assume "\<not> compare_sign comparefn x z \<le> 0"
  then have xz: "0 < compare_sign comparefn x z" by simp
  then have zx: "compare_sign comparefn z x < 0" by (rule after_before [OF c x z])
  consider (bb) "compare_sign comparefn x y < 0" "compare_sign comparefn y z < 0"
    | (tt) "compare_sign comparefn x y = 0" "compare_sign comparefn y z = 0"
    | (bt) "compare_sign comparefn x y < 0" "compare_sign comparefn y z = 0"
    | (tb) "compare_sign comparefn x y = 0" "compare_sign comparefn y z < 0"
    using xy yz by linarith
  then show False
  proof cases
    case bb
    then have "compare_sign comparefn x z < 0" by (rule before_trans [OF c x y z])
    then show ?thesis using xz by simp
  next
    case tt
    then have "compare_sign comparefn x z = 0" by (rule tie_trans [OF c x y z])
    then show ?thesis using xz by simp
  next
    case bt
    have "compare_sign comparefn z y < 0" by (rule before_trans [OF c z x y zx bt(1)])
    moreover have "compare_sign comparefn z y = 0" by (rule tie_sym [OF c y z bt(2)])
    ultimately show ?thesis by simp
  next
    case tb
    have "compare_sign comparefn y x < 0" by (rule before_trans [OF c y z x tb(2) zx])
    moreover have "compare_sign comparefn y x = 0" by (rule tie_sym [OF c x y tb(1)])
    ultimately show ?thesis by simp
  qed
qed

lemma insert_sorted_sorted:
  assumes c: "consistent comparefn xs" and x: "x \<in> set xs" and ys: "set ys \<subseteq> set xs"
    and s: "sorted_wrt (\<lambda>a b. compare_sign comparefn a b \<le> 0) ys"
  shows "sorted_wrt (\<lambda>a b. compare_sign comparefn a b \<le> 0) (insert_sorted comparefn x ys)"
  using ys s
proof (induction ys)
  case Nil
  then show ?case by simp
next
  case (Cons y ys)
  have y: "y \<in> set xs" and sub: "set ys \<subseteq> set xs" using Cons.prems(1) by simp_all
  have sy: "\<forall>z \<in> set ys. compare_sign comparefn y z \<le> 0"
    and ss: "sorted_wrt (\<lambda>a b. compare_sign comparefn a b \<le> 0) ys"
    using Cons.prems(2) by simp_all
  show ?case
  proof (cases "sorts_after comparefn x y")
    case True
    then have "compare_sign comparefn y x < 0"
      using after_before [OF c x y] by (simp add: sorts_after_def)
    then have "\<forall>z \<in> set (insert_sorted comparefn x ys). compare_sign comparefn y z \<le> 0"
      using sy by (simp add: set_insert_sorted)
    then show ?thesis using True Cons.IH [OF sub ss] by simp
  next
    case False
    then have xy: "compare_sign comparefn x y \<le> 0" by (simp add: sorts_after_def)
    have "compare_sign comparefn x z \<le> 0" if "z \<in> set ys" for z
    proof -
      have "z \<in> set xs" using that sub by blast
      moreover have "compare_sign comparefn y z \<le> 0" using sy that by blast
      ultimately show ?thesis using not_after_trans [OF c x y _ xy] by blast
    qed
    then show ?thesis using False xy Cons.prems(2) by simp
  qed
qed

lemma insertion_sort_sorted:
  assumes c: "consistent comparefn zs" and "set xs \<subseteq> set zs"
  shows "sorted_wrt (\<lambda>a b. compare_sign comparefn a b \<le> 0) (insertion_sort comparefn xs)"
  using assms(2)
proof (induction xs)
  case Nil
  then show ?case by (simp add: insertion_sort_def)
next
  case (Cons x xs)
  have x: "x \<in> set zs" and sub: "set xs \<subseteq> set zs" using Cons.prems by simp_all
  have "sorted_wrt (\<lambda>a b. compare_sign comparefn a b \<le> 0)
          (insert_sorted comparefn x (insertion_sort comparefn xs))"
    using sub by (intro insert_sorted_sorted [OF c x] Cons.IH) (simp_all add: set_insertion_sort)
  then show ?case by (simp add: insertion_sort_def)
qed

lemma insert_sorted_filter:
  assumes "\<forall>y \<in> set ys. sorts_after comparefn x y \<longrightarrow> \<not> (P x \<and> P y)"
  shows "filter P (insert_sorted comparefn x ys) = filter P (x # ys)"
  using assms by (induction ys) auto

lemma insertion_sort_stable:
  assumes c: "consistent comparefn zs" and "set xs \<subseteq> set zs" and a: "a \<in> set zs"
  shows "filter (\<lambda>b. compare_sign comparefn a b = 0) (insertion_sort comparefn xs) =
         filter (\<lambda>b. compare_sign comparefn a b = 0) xs"
  using assms(2)
proof (induction xs)
  case Nil
  then show ?case by (simp add: insertion_sort_def)
next
  case (Cons x xs)
  have x: "x \<in> set zs" and sub: "set xs \<subseteq> set zs" using Cons.prems by simp_all
  have "\<not> (compare_sign comparefn a x = 0 \<and> compare_sign comparefn a y = 0)"
    if y: "y \<in> set zs" and "sorts_after comparefn x y" for y
  proof
    assume t: "compare_sign comparefn a x = 0 \<and> compare_sign comparefn a y = 0"
    then have "compare_sign comparefn x a = 0" using tie_sym [OF c a x] by blast
    then have "compare_sign comparefn x y = 0" using tie_trans [OF c x a y] t by blast
    then show False using that(2) by (simp add: sorts_after_def)
  qed
  then have "filter (\<lambda>b. compare_sign comparefn a b = 0)
               (insert_sorted comparefn x (insertion_sort comparefn xs)) =
             filter (\<lambda>b. compare_sign comparefn a b = 0) (x # insertion_sort comparefn xs)"
    using sub by (intro insert_sorted_filter) (auto simp: set_insertion_sort)
  then show ?case using Cons.IH [OF sub] by (simp add: insertion_sort_def)
qed

text \<open>
  With a consistent comparator the sorted array holds the elements of the array, no
  element sorts after one that follows it, and the elements that tie keep the order they
  had: this is the array that ECMAScript prescribes, on every engine.
\<close>

lemma consistent_sort_is_stable:
  assumes "consistent comparefn xs"
  shows "js_sort engine comparefn xs = insertion_sort comparefn xs"
    and "count_list (js_sort engine comparefn xs) z = count_list xs z"
    and "sorted_wrt (\<lambda>a b. \<not> sorts_after comparefn a b) (js_sort engine comparefn xs)"
    and "a \<in> set xs \<Longrightarrow>
         filter (\<lambda>b. compare_sign comparefn a b = 0) (js_sort engine comparefn xs) =
         filter (\<lambda>b. compare_sign comparefn a b = 0) xs"
proof -
  show j: "js_sort engine comparefn xs = insertion_sort comparefn xs"
    using assms by (simp add: js_sort_def)
  show "count_list (js_sort engine comparefn xs) z = count_list xs z"
    unfolding j by (rule insertion_sort_count)
  have "sorted_wrt (\<lambda>a b. compare_sign comparefn a b \<le> 0) (insertion_sort comparefn xs)"
    by (rule insertion_sort_sorted [OF assms]) simp
  then show "sorted_wrt (\<lambda>a b. \<not> sorts_after comparefn a b) (js_sort engine comparefn xs)"
    unfolding j by (simp add: sorts_after_def not_less)
  show "filter (\<lambda>b. compare_sign comparefn a b = 0) (js_sort engine comparefn xs) =
        filter (\<lambda>b. compare_sign comparefn a b = 0) xs" if "a \<in> set xs"
    unfolding j using that by (intro insertion_sort_stable [OF assms]) simp_all
qed

text \<open>
  A score \<^verbatim>\<open>NaN\<close> among different finite scores makes the comparator inconsistent: it
  ties with both of them, and they do not tie. The order of such an array is the
  engine's.
\<close>

lemma mixed_scores_are_left_to_the_engine:
  "js_sort engine by_similarity
     [\<lparr>chunk_id = 0, chunk_text = ''a'', embedding = [], similarity = Num 1\<rparr>,
      \<lparr>chunk_id = 1, chunk_text = ''b'', embedding = [], similarity = Num 2\<rparr>,
      \<lparr>chunk_id = 2, chunk_text = ''c'', embedding = [], similarity = NaN\<rparr>,
      \<lparr>chunk_id = 3, chunk_text = ''d'', embedding = [], similarity = Num 3\<rparr>]
   = engine (SortCompare by_similarity)
     [\<lparr>chunk_id = 0, chunk_text = ''a'', embedding = [], similarity = Num 1\<rparr>,
      \<lparr>chunk_id = 1, chunk_text = ''b'', embedding = [], similarity = Num 2\<rparr>,
      \<lparr>chunk_id = 2, chunk_text = ''c'', embedding = [], similarity = NaN\<rparr>,
      \<lparr>chunk_id = 3, chunk_text = ''d'', embedding = [], similarity = Num 3\<rparr>]"
proof -
  let ?a = "\<lparr>chunk_id = 0, chunk_text = ''a'', embedding = [], similarity = Num 1\<rparr>"
  let ?b = "\<lparr>chunk_id = 2, chunk_text = ''c'', embedding = [], similarity = NaN\<rparr>"
  let ?c = "\<lparr>chunk_id = 1, chunk_text = ''b'', embedding = [], similarity = Num 2\<rparr>"
  let ?xs = "[?a, ?c, ?b, \<lparr>chunk_id = 3, chunk_text = ''d'', embedding = [], similarity = Num 3\<rparr>]"
  have o: "to_number 1 = Num 1" using to_number_of_int [of 1] by simp
  have ab: "compare_sign by_similarity ?a ?b = 0" and bc: "compare_sign by_similarity ?b ?c = 0"
    by (simp_all add: compare_sign_def SortCompare_def by_similarity_def js_sub_def js_neg_def
        js_add_def sign_of_def)
  have ac: "compare_sign by_similarity ?a ?c = 1"
    by (simp add: compare_sign_def SortCompare_def by_similarity_def js_sub_def js_neg_def
        js_add_Num o sign_of_def)
  have "\<not> consistent_at by_similarity ?a ?b ?c"
    using ab bc ac by (simp add: consistent_at_def)
  then have "\<not> consistent by_similarity ?xs"
    using consistentD [of by_similarity ?xs ?a ?b ?c] by auto
  then show ?thesis by (simp add: js_sort_def)
qed

text \<open>
  When every two elements tie, the comparator is consistent and the sort leaves the array
  as it is, whatever the engine.
\<close>

lemma insertion_sort_ties:
  assumes "\<forall>a \<in> set xs. \<forall>b \<in> set xs. compare_sign comparefn a b = 0"
  shows "insertion_sort comparefn xs = xs"
  using assms
proof (induction xs)
  case Nil
  then show ?case by (simp add: insertion_sort_def)
next
  case (Cons x xs)
  then have i: "insertion_sort comparefn xs = xs" by simp
  have "insert_sorted comparefn x xs = x # xs"
    using Cons.prems by (cases xs) (simp_all add: sorts_after_def)
  then show ?case using i by (simp add: insertion_sort_def)
qed

lemma ties_keep_order:
  assumes "\<forall>a \<in> set xs. \<forall>b \<in> set xs. compare_sign comparefn a b = 0"
  shows "js_sort engine comparefn xs = xs"
proof -
  have "consistent comparefn xs"
    using assms by (simp add: consistent_def consistent_at_def list_all_iff)
  then show ?thesis using insertion_sort_ties [OF assms] by (simp add: js_sort_def)
qed

text \<open>
  The ranking of the example of the specification: for the question vector \<^verbatim>\<open>[1, 0]\<close>
  the chunks with the vectors \<^verbatim>\<open>[2, 0]\<close> and \<^verbatim>\<open>[1, 0]\<close> both score 1 and keep their order.
\<close>

lemma ranking_of_the_example:
  "topChunks engine [Num 1, Num 0]
     [\<lparr>chunk_id = 0, chunk_text = ''a'', embedding = [Num 2, Num 0]\<rparr>,
      \<lparr>chunk_id = 1, chunk_text = ''b'', embedding = [Num 1, Num 0]\<rparr>]
   = [\<lparr>chunk_id = 0, chunk_text = ''a'', embedding = [Num 2, Num 0], similarity = Num 1\<rparr>,
      \<lparr>chunk_id = 1, chunk_text = ''b'', embedding = [Num 1, Num 0], similarity = Num 1\<rparr>]"
proof -
  let ?xs = "map (with_similarity [Num 1, Num 0])
     [\<lparr>chunk_id = 0, chunk_text = ''a'', embedding = [Num 2, Num 0]\<rparr>,
      \<lparr>chunk_id = 1, chunk_text = ''b'', embedding = [Num 1, Num 0]\<rparr>]"
  have "js_sort engine by_similarity ?xs = ?xs"
    by (rule ties_keep_order)
      (simp add: with_similarity_def similarity_of_the_example self_similarity_of_1_0
        compare_sign_def SortCompare_def by_similarity_def js_sub_def js_neg_def js_add_Num
        to_number_0 sign_of_def)
  then show ?thesis
    by (simp add: topChunks_def with_similarity_def similarity_of_the_example
        self_similarity_of_1_0)
qed

text \<open>
  C4. The ranking is to be sorted by descending score. With the question vector \<^verbatim>\<open>[1]\<close>
  and four chunks whose vectors are \<^verbatim>\<open>[0]\<close>, \<^verbatim>\<open>[0]\<close>, \<^verbatim>\<open>[0]\<close> and \<^verbatim>\<open>[1]\<close>, the first three
  score \<^verbatim>\<open>NaN\<close> and the fourth scores 1. The comparator returns \<^verbatim>\<open>NaN\<close> for every pair
  with one of the first three, which the sort reads as a tie, so every two elements tie
  and the order stays as it is, on every engine: the three chunks without a score are
  returned and the matching chunk is dropped.
\<close>

theorem ranking_keeps_NaN_scores_in_front:
  "topChunks engine [Num 1]
     [\<lparr>chunk_id = 0, chunk_text = ''!!!'', embedding = [Num 0]\<rparr>,
      \<lparr>chunk_id = 1, chunk_text = ''???'', embedding = [Num 0]\<rparr>,
      \<lparr>chunk_id = 2, chunk_text = ''...'', embedding = [Num 0]\<rparr>,
      \<lparr>chunk_id = 3, chunk_text = ''cat'', embedding = [Num 1]\<rparr>]
   = [\<lparr>chunk_id = 0, chunk_text = ''!!!'', embedding = [Num 0], similarity = NaN\<rparr>,
      \<lparr>chunk_id = 1, chunk_text = ''???'', embedding = [Num 0], similarity = NaN\<rparr>,
      \<lparr>chunk_id = 2, chunk_text = ''...'', embedding = [Num 0], similarity = NaN\<rparr>]
   \<and> cosineSimilarity [Num 1] [Num 1] = Num 1"
proof -
  have z: "cosineSimilarity [Num 1] [Num 0] = NaN"
    using zero_norm_right [of "[1]"] by simp
  let ?xs = "map (with_similarity [Num 1])
     [\<lparr>chunk_id = 0, chunk_text = ''!!!'', embedding = [Num 0]\<rparr>,
      \<lparr>chunk_id = 1, chunk_text = ''???'', embedding = [Num 0]\<rparr>,
      \<lparr>chunk_id = 2, chunk_text = ''...'', embedding = [Num 0]\<rparr>,
      \<lparr>chunk_id = 3, chunk_text = ''cat'', embedding = [Num 1]\<rparr>]"
  have "js_sort engine by_similarity ?xs = ?xs"
    by (rule ties_keep_order)
      (simp add: with_similarity_def z self_similarity_of_1 compare_sign_def SortCompare_def
        by_similarity_def js_sub_def js_neg_def js_add_def to_number_0 sign_of_def)
  then show ?thesis
    by (simp add: topChunks_def with_similarity_def z self_similarity_of_1)
qed

text \<open>
  The score of a vector against itself is not always 1: for \<^verbatim>\<open>[1, 1]\<close> the norm is the
  double nearest to the square root of 2, its square rounds to \<open>2 + 2\<^sup>-\<^sup>5\<^sup>1\<close>, and the
  quotient is \<open>1 - 2\<^sup>-\<^sup>5\<^sup>2\<close>, which prints as \<^verbatim>\<open>0.9999999999999998\<close>.
\<close>

theorem self_similarity_is_rounded:
  "0 < (\<Sum>c\<leftarrow>[1, 1 :: nat]. c * c)
   \<and> cosineSimilarity (count_vector [1, 1]) (count_vector [1, 1]) = Num (1 - 1 / 2 ^ 52)
   \<and> cosineSimilarity (count_vector [1, 1]) (count_vector [1, 1]) \<noteq> Num 1"
  using self_similarity_1_1 by (simp add: count_vector_def)

text \<open>
  C9, as amended. For every vector of occurrence counts with a non-zero norm, whose
  squared norm is below \<open>2\<^sup>5\<^sup>3\<close> (so that the sums of the products are exact), the score
  of the vector against itself is a number that differs from 1 by at most \<open>2\<^sup>-\<^sup>5\<^sup>0\<close>: it is
  1 up to the rounding of the square root, of the product of the norms and of the
  quotient.
\<close>

theorem self_similarity_near_one:
  assumes "0 < (\<Sum>c\<leftarrow>v. c * c)" and "(\<Sum>c\<leftarrow>v. c * c) < 2 ^ 53"
  shows "\<exists>q. cosineSimilarity (count_vector v) (count_vector v) = Num q \<and> \<bar>q - 1\<bar> \<le> 1 / 2 ^ 50"
proof -
  define s where "s = (\<Sum>c\<leftarrow>v. c * c)"
  define S :: rat where "S = of_nat s"
  define u :: rat where "u = 1 / 2 ^ 53"
  have s: "0 < s" "s < 2 ^ 53" using assms by (simp_all add: s_def)
  have S1: "1 \<le> S" using s(1) by (simp add: S_def)
  have Spos: "0 < S" using S1 by linarith
  have S53: "S < 2 ^ 53" unfolding S_def using s(2) by (metis of_nat_less_numeral_power_cancel_iff)
  have u: "0 \<le> u" "u \<le> 1" by (simp_all add: u_def)
  have d: "dotProduct (count_vector v) (count_vector v) = Num S"
    using dotProduct_count_vector [OF assms(2)] by (simp add: S_def s_def)
  obtain y where y: "1 \<le> y" "sqrt_double S = nearest_double y"
      "S * (1 - u) \<le> y * y" "y * y \<le> S * (1 + u)"
    using sqrt_double_bounds [OF s] unfolding S_def u_def by blast
  define m where "m = nearest_double y"
  have "magnitude (count_vector v) = js_sqrt (Num S)"
    using magnitude_count_vector [OF assms(2)] by (simp only: S_def s_def)
  moreover have "js_sqrt (Num S) = Num (sqrt_double S)" using Spos by (simp add: js_sqrt_def)
  ultimately have mg: "magnitude (count_vector v) = Num m" by (simp only: m_def y(2))
  have ypos: "0 \<le> y" using y(1) by linarith
  have "1 / 2 \<le> y" using y(1) by linarith
  from nearest_double_rel [OF this]
  have m: "y * (1 - u) \<le> m" "m \<le> y * (1 + u)" by (simp_all add: m_def u_def)
  from square_bounds [OF u ypos _ _ m, of S "1 - u" "1 + u"] y(3,4)
  have x: "S * ((1 - u) * ((1 - u) * (1 - u))) \<le> m * m"
    "m * m \<le> S * ((1 + u) * ((1 + u) * (1 + u)))" by simp_all
  have c3: "1 / 2 \<le> (1 - u) * ((1 - u) * (1 - u))" by (simp add: u_def)
  have c3': "0 \<le> (1 - u) * ((1 - u) * (1 - u))" using c3 by linarith
  have "1 * ((1 - u) * ((1 - u) * (1 - u))) \<le> S * ((1 - u) * ((1 - u) * (1 - u)))"
    using S1 c3' by (intro mult_right_mono) simp_all
  then have xh: "1 / 2 \<le> m * m" using x(1) c3 by linarith
  define p where "p = nearest_double (m * m)"
  from nearest_double_rel [OF xh]
  have p0: "m * m * (1 - u) \<le> p" "p \<le> m * m * (1 + u)" by (simp_all add: p_def u_def)
  from scale_bounds [OF u x p0]
  have p: "S * ((1 - u) * ((1 - u) * (1 - u)) * (1 - u)) \<le> p"
    "p \<le> S * ((1 + u) * ((1 + u) * (1 + u)) * (1 + u))" by simp_all
  have l4: "0 < (1 - u) * ((1 - u) * (1 - u)) * (1 - u)" by (simp add: u_def)
  have h4: "(1 + u) * ((1 + u) * (1 + u)) * (1 + u) \<le> 2" by (simp add: u_def)
  have ppos: "0 < p"
  proof -
    have "0 < S * ((1 - u) * ((1 - u) * (1 - u)) * (1 - u))" using Spos l4 by (rule mult_pos_pos)
    then show ?thesis using p(1) by linarith
  qed
  have "S * ((1 + u) * ((1 + u) * (1 + u)) * (1 + u)) \<le> S * 2"
    using h4 Spos by (intro mult_left_mono) simp_all
  with p(2) have "p \<le> S * 2" by (rule order_trans)
  moreover have "S * 2 < 2 ^ 53 * 2" using S53 by simp
  moreover have "(2::rat) ^ 53 * 2 = 2 ^ 54" by simp
  ultimately have "p < 2 ^ 54" by linarith
  moreover have "(2::rat) ^ 54 < 2 ^ 1024" by (rule power_strict_increasing) simp_all
  ultimately have "\<bar>p\<bar> < 2 ^ 1024" using ppos by linarith
  then have "to_number (m * m) = Num p" unfolding p_def by (rule to_number_Num)
  then have pr: "js_mul (Num m) (Num m) = Num p" by (simp add: js_mul_Num)
  from quotient_bounds [OF Spos l4 p]
  have z: "1 / ((1 + u) * ((1 + u) * (1 + u)) * (1 + u)) \<le> S / p"
    "S / p \<le> 1 / ((1 - u) * ((1 - u) * (1 - u)) * (1 - u))" by simp_all
  have "1 / 2 \<le> 1 / ((1 + u) * ((1 + u) * (1 + u)) * (1 + u))" by (simp add: u_def)
  then have zh: "1 / 2 \<le> S / p" using z(1) by linarith
  define q where "q = nearest_double (S / p)"
  from nearest_double_rel [OF zh]
  have q0: "S / p * (1 - u) \<le> q" "q \<le> S / p * (1 + u)" by (simp_all add: q_def u_def)
  have z1: "1 * (1 / ((1 + u) * ((1 + u) * (1 + u)) * (1 + u))) \<le> S / p"
    "S / p \<le> 1 * (1 / ((1 - u) * ((1 - u) * (1 - u)) * (1 - u)))" using z by simp_all
  from scale_bounds [OF u z1 q0]
  have q: "1 / ((1 + u) * ((1 + u) * (1 + u)) * (1 + u)) * (1 - u) \<le> q"
    "q \<le> 1 / ((1 - u) * ((1 - u) * (1 - u)) * (1 - u)) * (1 + u)" by simp_all
  have lo: "1 - 1 / 2 ^ 50 \<le> 1 / ((1 + u) * ((1 + u) * (1 + u)) * (1 + u)) * (1 - u)"
    by (simp add: u_def)
  have hi: "1 / ((1 - u) * ((1 - u) * (1 - u)) * (1 - u)) * (1 + u) \<le> 1 + 1 / 2 ^ 50"
    by (simp add: u_def)
  define e :: rat where "e = 1 / 2 ^ 50"
  have e1: "e \<le> 1" by (simp add: e_def)
  have "1 - e \<le> q" using lo q(1) unfolding e_def [symmetric] by (rule order_trans)
  moreover have "q \<le> 1 + e" using q(2) hi unfolding e_def [symmetric] by (rule order_trans)
  ultimately have ne: "\<bar>q - 1\<bar> \<le> e" by linarith
  then have near: "\<bar>q - 1\<bar> \<le> 1 / 2 ^ 50" by (simp only: e_def)
  have "\<bar>q\<bar> < 2 ^ 1024"
  proof -
    have "\<bar>q\<bar> \<le> 2" using ne e1 by linarith
    moreover have "(2::rat) ^ 1 < 2 ^ 1024" by (rule power_strict_increasing) simp_all
    ultimately show ?thesis by simp
  qed
  then have "to_number (S / p) = Num q" unfolding q_def by (rule to_number_Num)
  moreover have "p \<noteq> 0" using ppos by simp
  ultimately have "js_div (Num S) (Num p) = Num q" by (simp add: js_div_Num)
  then have "cosineSimilarity (count_vector v) (count_vector v) = Num q"
    by (simp add: cosineSimilarity_def d mg pr)
  then show ?thesis using near by blast
qed

theorem self_similarity_near_one_witness:
  "0 < (\<Sum>c\<leftarrow>[1, 1 :: nat]. c * c) \<and> (\<Sum>c\<leftarrow>[1, 1 :: nat]. c * c) < 2 ^ 53
   \<and> (\<exists>q. cosineSimilarity (count_vector [1, 1]) (count_vector [1, 1]) = Num q
            \<and> \<bar>q - 1\<bar> \<le> 1 / 2 ^ 50)"
proof -
  have a: "0 < (\<Sum>c\<leftarrow>[1, 1 :: nat]. c * c)" by simp
  have b: "(\<Sum>c\<leftarrow>[1, 1 :: nat]. c * c) < 2 ^ 53" by simp
  show ?thesis using self_similarity_near_one [OF a b] a b by blast
qed

end
